theory Spec2Isabelle
  imports Main "HOL-Library.AList"
begin

section \<open>Conventions of the embedding\<close>

text \<open>
  The development embeds the JSON repair utilities (\<^verbatim>\<open>utils/json-tools.ts\<close>), the
  Claude-to-OpenAI transformer (\<^verbatim>\<open>ClaudeToOpenAITransformer\<close>) and the key pool
  manager (\<^verbatim>\<open>KeyPoolManager\<close>) of the relay.

  JavaScript strings are modelled as \<^typ>\<open>string\<close>, so a string ranges over the code
  units below 256.  A value that may be \<^verbatim>\<open>undefined\<close> or \<^verbatim>\<open>null\<close> is an
  \<^typ>\<open>'a option\<close>.  A JavaScript exception is a value of type \<open>js_error\<close> on the
  left of a sum.  The runtime's built-ins \<^verbatim>\<open>JSON.parse\<close> and \<^verbatim>\<open>JSON.stringify\<close>
  are not code of the relay: the functions that call them take them as a parameter, a record
  of type \<open>js_runtime\<close> over the type \<^typ>\<open>'j\<close> of parsed JSON values.
  Identifiers made from the clock (\<^verbatim>\<open>Date.now()\<close>) and console output are left out.
  Inputs have the shape their TypeScript types give them (a chunk's choice has a
  \<^verbatim>\<open>delta\<close>).
\<close>

text \<open>
  The exceptions: the \<^verbatim>\<open>SyntaxError\<close> of \<^verbatim>\<open>JSON.parse\<close>, the \<^verbatim>\<open>TypeError\<close> of
  a property read on \<^verbatim>\<open>undefined\<close> and of the stream controller, the error that
  \<^verbatim>\<open>reconstructCompletionFromChunks\<close> throws on an empty chunk list, an error thrown by
  the provider's stream (with its message), and the error that \<^verbatim>\<open>handleStreamError\<close>
  makes from the one it handles.
\<close>

datatype js_error =
    SyntaxError
  | TypeError
  | NoChunks
  | UpstreamFailure string
  | StreamingFailed js_error

record 'j js_runtime =
  rt_parse :: "string \<Rightarrow> 'j option"
  rt_stringify :: "'j \<Rightarrow> string"
  rt_truthy :: "'j \<Rightarrow> bool"
  rt_empty_object :: 'j

text \<open>Truthiness of an optional string: \<^verbatim>\<open>undefined\<close>, \<^verbatim>\<open>null\<close> and the empty
  string are falsy.\<close>

fun truthy_str :: "string option \<Rightarrow> bool" where
  "truthy_str None = False"
| "truthy_str (Some s) = (s \<noteq> [])"

section \<open>Finish-reason mapping\<close>

text \<open>
  \<^verbatim>\<open>mapFinishReason\<close> reads \<^verbatim>\<open>mapping[reason]\<close> from an object literal.  A property read
  on an object literal finds the object's own properties first and then the members it
  inherits from \<^verbatim>\<open>Object.prototype\<close>; those are functions (or, for \<^verbatim>\<open>__proto__\<close>, the
  prototype object), all truthy.  A read that finds nothing yields \<^verbatim>\<open>undefined\<close>.
\<close>

datatype js_value = JString string | PrototypeMember string

definition object_prototype_keys :: "string list" where
  "object_prototype_keys =
     [''constructor'', ''hasOwnProperty'', ''isPrototypeOf'', ''propertyIsEnumerable'',
      ''toLocaleString'', ''toString'', ''valueOf'', ''__proto__'',
      ''__defineGetter__'', ''__defineSetter__'', ''__lookupGetter__'', ''__lookupSetter__'']"

definition get_property :: "(string \<times> string) list \<Rightarrow> string \<Rightarrow> js_value option" where
  "get_property obj key =
     (case map_of obj key of
        Some v \<Rightarrow> Some (JString v)
      | None \<Rightarrow> if key \<in> set object_prototype_keys then Some (PrototypeMember key) else None)"

fun truthy_value :: "js_value option \<Rightarrow> bool" where
  "truthy_value None = False"
| "truthy_value (Some (JString s)) = (s \<noteq> [])"
| "truthy_value (Some (PrototypeMember k)) = True"

definition mapping :: "(string \<times> string) list" where
  "mapping =
     [(''stop'', ''end_turn''),
      (''length'', ''max_tokens''),
      (''tool_calls'', ''tool_use''),
      (''content_filter'', ''end_turn'')]"

definition mapFinishReason :: "string option \<Rightarrow> js_value" where
  "mapFinishReason reason =
     (if \<not> truthy_str reason then JString ''end_turn''
      else case get_property mapping (the reason) of
             Some v \<Rightarrow> if truthy_value (Some v) then v else JString ''end_turn''
           | None \<Rightarrow> JString ''end_turn'')"

section \<open>Tool-choice transform\<close>





section \<open>Message transform\<close>

datatype image_source = Base64Source string string | UrlSource string

datatype 'j tool_result_content = ResultString string | ResultValue 'j | ResultMissing

datatype 'j content_block =
    TextBlock string
  | ImageBlock image_source
  | ToolUseBlock string "string option" "'j option"
  | ToolResultBlock "'j tool_result_content" string
  | OtherBlock string

datatype 'j message_content = ContentString string | ContentBlocks "'j content_block list" | ContentOther

record 'j message_param =
  mp_role :: string
  mp_content :: "'j message_content"

datatype content_part = TextPart string | ImageUrlPart string string

record openai_tool_call =
  call_id :: string
  call_type :: string
  call_name :: string
  call_arguments :: string

datatype openai_content = PlainContent string | PartsContent "content_part list"

datatype openai_message =
    ChatMessage string openai_content "openai_tool_call list option"
  | ToolMessage "string option" string

text \<open>\<^verbatim>\<open>JSON.stringify(toolUseBlock.input || {})\<close>.\<close>

definition stringify_or_empty :: "'j js_runtime \<Rightarrow> 'j option \<Rightarrow> string" where
  "stringify_or_empty rt v =
     (case v of
        None \<Rightarrow> rt_stringify rt (rt_empty_object rt)
      | Some x \<Rightarrow> if rt_truthy rt x then rt_stringify rt x
                  else rt_stringify rt (rt_empty_object rt))"

text \<open>The \<^verbatim>\<open>content\<close> of the tool message: the string itself, else
  \<^verbatim>\<open>JSON.stringify\<close> of the value, which is \<^verbatim>\<open>undefined\<close> for a missing one.\<close>

fun tool_result_text :: "'j js_runtime \<Rightarrow> 'j tool_result_content \<Rightarrow> string option" where
  "tool_result_text rt (ResultString s) = Some s"
| "tool_result_text rt (ResultValue v) = Some (rt_stringify rt v)"
| "tool_result_text rt ResultMissing = None"

text \<open>The loop over \<^verbatim>\<open>message.content\<close>, with the two arrays it fills as accumulators;
  the \<^verbatim>\<open>return\<close> inside the \<^verbatim>\<open>tool_result\<close> case leaves the loop.\<close>

fun transform_blocks ::
  "'j js_runtime \<Rightarrow> string \<Rightarrow> 'j content_block list \<Rightarrow> content_part list \<Rightarrow>
   openai_tool_call list \<Rightarrow> openai_message" where
  "transform_blocks rt role [] content toolCalls =
     ChatMessage role
       (if content \<noteq> [] then PartsContent content else PlainContent [])
       (if toolCalls \<noteq> [] \<and> role = ''assistant'' then Some toolCalls else None)"
| "transform_blocks rt role (TextBlock t # items) content toolCalls =
     transform_blocks rt role items (content @ [TextPart t]) toolCalls"
| "transform_blocks rt role (ImageBlock (Base64Source media_type data) # items) content toolCalls =
     transform_blocks rt role items
       (content @ [ImageUrlPart (''data:'' @ media_type @ '';base64,'' @ data) ''auto''])
       toolCalls"
| "transform_blocks rt role (ImageBlock (UrlSource u) # items) content toolCalls =
     transform_blocks rt role items content toolCalls"
| "transform_blocks rt role (ToolUseBlock tid name input # items) content toolCalls =
     (if \<not> truthy_str name then transform_blocks rt role items content toolCalls
      else transform_blocks rt role items content
             (toolCalls @ [\<lparr>call_id = tid, call_type = ''function'', call_name = the name,
                           call_arguments = stringify_or_empty rt input\<rparr>]))"
| "transform_blocks rt role (ToolResultBlock c tid # items) content toolCalls =
     ToolMessage (tool_result_text rt c) tid"
| "transform_blocks rt role (OtherBlock ty # items) content toolCalls =
     transform_blocks rt role items content toolCalls"

definition transformMessage :: "'j js_runtime \<Rightarrow> 'j message_param \<Rightarrow> openai_message option" where
  "transformMessage rt message =
     (let role = (if mp_role message = ''assistant'' then ''assistant'' else ''user'')
      in case mp_content message of
           ContentString s \<Rightarrow> Some (ChatMessage role (PlainContent s) None)
         | ContentBlocks items \<Rightarrow> Some (transform_blocks rt role items [] [])
         | ContentOther \<Rightarrow> None)"

fun is_tool_result :: "'j content_block \<Rightarrow> bool" where
  "is_tool_result (ToolResultBlock c tid) = True"
| "is_tool_result b = False"

section \<open>Key pool manager\<close>

text \<open>
  Pool instances are objects with identity: the manager's map holds references into a store
  of allocated pools, and \<^verbatim>\<open>new\<close> appends to the store.  The classes
  \<^verbatim>\<open>GeminiKeyPool\<close> and \<^verbatim>\<open>GenericKeyPool\<close> enter only through their constructors.
\<close>

datatype pool_kind = GeminiKeyPool | GenericKeyPool

record key_pool =
  pool_kind :: pool_kind
  pool_provider :: string

record manager =
  pools :: "string \<rightharpoonup> nat"
  store :: "key_pool list"

definition createPool :: "manager \<Rightarrow> string \<Rightarrow> string \<Rightarrow> nat \<times> manager" where
  "createPool m providerId providerType =
     (let obj = (if providerType = ''google''
                 then \<lparr>pool_kind = GeminiKeyPool, pool_provider = providerId\<rparr>
                 else \<lparr>pool_kind = GenericKeyPool, pool_provider = providerId\<rparr>)
      in (length (store m), m\<lparr>store := store m @ [obj]\<rparr>))"

definition getOrCreatePool :: "manager \<Rightarrow> string \<Rightarrow> string \<Rightarrow> nat \<times> manager" where
  "getOrCreatePool m providerId providerType =
     (case pools m providerId of
        Some pool \<Rightarrow> (pool, m)
      | None \<Rightarrow>
          (let (pool, m') = createPool m providerId providerType
           in (pool, m'\<lparr>pools := (pools m')(providerId \<mapsto> pool)\<rparr>)))"

definition removePool :: "manager \<Rightarrow> string \<Rightarrow> manager" where
  "removePool m providerId = m\<lparr>pools := (pools m)(providerId := None)\<rparr>"

fun getOrCreatePool_calls :: "manager \<Rightarrow> string \<Rightarrow> string list \<Rightarrow> nat list \<times> manager" where
  "getOrCreatePool_calls m providerId [] = ([], m)"
| "getOrCreatePool_calls m providerId (ty # tys) =
     (let (p, m') = getOrCreatePool m providerId ty;
          (ps, m'') = getOrCreatePool_calls m' providerId tys
      in (p # ps, m''))"

section \<open>JSON repair\<close>

text \<open>
  \<^verbatim>\<open>fixSingleQuoteJson\<close>, \<^verbatim>\<open>safeParseJson\<close> and \<^verbatim>\<open>fixToolCallArguments\<close> of
  \<^verbatim>\<open>json-tools.ts\<close>.  The regular expressions of the source are written out as the
  functions that perform their global replacement.
\<close>

text \<open>The characters that \<^verbatim>\<open>\s\<close> matches and \<^verbatim>\<open>trim()\<close> strips, among the code
  units below 256: tab, line feed, vertical tab, form feed, carriage return, space and
  no-break space.\<close>

definition is_space :: "char \<Rightarrow> bool" where
  "is_space c = (c \<in> set [CHR 0x09, CHR 0x0A, CHR 0x0B, CHR 0x0C, CHR 0x0D, CHR 0x20, CHR 0xA0])"

definition trim :: "string \<Rightarrow> string" where
  "trim s = rev (dropWhile is_space (rev (dropWhile is_space s)))"

definition startsWith :: "string \<Rightarrow> char \<Rightarrow> bool" where
  "startsWith s c = (case s of [] \<Rightarrow> False | x # xs \<Rightarrow> x = c)"

definition endsWith :: "string \<Rightarrow> char \<Rightarrow> bool" where
  "endsWith s c = (s \<noteq> [] \<and> last s = c)"

text \<open>\<^verbatim>\<open>fixed.replace(/\\'/g, '\u0001')\<close>: every backslash followed by a single quote
  becomes the sentinel character.\<close>

fun mark_escaped_quotes :: "string \<Rightarrow> string" where
  "mark_escaped_quotes (c # d # cs) =
     (if c = CHR 0x5C \<and> d = CHR 0x27 then CHR 0x01 # mark_escaped_quotes cs
      else c # mark_escaped_quotes (d # cs))"
| "mark_escaped_quotes cs = cs"

text \<open>
  The pattern \<^verbatim>\<open>'([^']*)'\<close> at the head of a string: the text between a single quote
  and the next one, and what follows the closing quote.  The greedy \<^verbatim>\<open>[^']*\<close> can
  only end at the next single quote, and the greedy \<^verbatim>\<open>\s*\<close> only at the end of the
  run of whitespace, so a match attempt at a position has one outcome.
\<close>

definition quoted :: "string \<Rightarrow> (string \<times> string) option" where
  "quoted s =
     (case s of
        [] \<Rightarrow> None
      | c # r \<Rightarrow>
          if c = CHR 0x27 then
            (case dropWhile (\<lambda>x. x \<noteq> CHR 0x27) r of
               [] \<Rightarrow> None
             | q # rest \<Rightarrow> Some (takeWhile (\<lambda>x. x \<noteq> CHR 0x27) r, rest))
          else None)"

text \<open>One match attempt of \<^verbatim>\<open>/(\s*)'([^']*)'(\s*):/\<close> at the head of a string, with the
  replacement \<^verbatim>\<open>$1"$2"$3:\<close> and the text after the match.\<close>

definition match_key :: "string \<Rightarrow> (string \<times> string) option" where
  "match_key s =
     (case quoted (dropWhile is_space s) of
        None \<Rightarrow> None
      | Some (body, r) \<Rightarrow>
          (case dropWhile is_space r of
             [] \<Rightarrow> None
           | c # rest \<Rightarrow>
               if c = CHR '':'' then
                 Some (takeWhile is_space s @ [CHR 0x22] @ body @ [CHR 0x22]
                         @ takeWhile is_space r @ '':'', rest)
               else None))"

text \<open>One match attempt of \<^verbatim>\<open>/p(\s*)'([^']*)'/\<close> for a literal character \<open>p\<close>
  (the colon, the opening bracket, the comma and the opening brace in the source), with the
  replacement \<^verbatim>\<open>p$1"$2"\<close>.\<close>

definition match_after :: "char \<Rightarrow> string \<Rightarrow> (string \<times> string) option" where
  "match_after p s =
     (case s of
        [] \<Rightarrow> None
      | c # r \<Rightarrow>
          if c = p then
            (case quoted (dropWhile is_space r) of
               None \<Rightarrow> None
             | Some (body, rest) \<Rightarrow>
                 Some ([p] @ takeWhile is_space r @ [CHR 0x22] @ body @ [CHR 0x22], rest))
          else None)"

text \<open>
  \<^verbatim>\<open>String.prototype.replace\<close> with a global pattern: a match is attempted at each
  position from the left; where it succeeds the replacement is written and the scan resumes
  after the match, elsewhere the character is copied.  A match of the patterns above is
  never empty; the test on the lengths states this for the termination proof.
\<close>

function gsub :: "(string \<Rightarrow> (string \<times> string) option) \<Rightarrow> string \<Rightarrow> string" where
  "gsub m [] = []"
| "gsub m (c # cs) =
     (case m (c # cs) of
        None \<Rightarrow> c # gsub m cs
      | Some (out, rest) \<Rightarrow>
          if length rest \<le> length cs then out @ gsub m rest else c # gsub m cs)"
  by pat_completeness auto
termination
  by (relation "measure (\<lambda>(m, s). length s)") auto

text \<open>\<^verbatim>\<open>fixed.replace(/\u0001/g, '\\"')\<close> and \<^verbatim>\<open>replace(/'/g, '"')\<close>.\<close>

definition restore_escaped_quotes :: "string \<Rightarrow> string" where
  "restore_escaped_quotes s =
     concat (map (\<lambda>c. if c = CHR 0x01 then [CHR 0x5C, CHR 0x22] else [c]) s)"

definition replace_quotes :: "string \<Rightarrow> string" where
  "replace_quotes s = map (\<lambda>c. if c = CHR 0x27 then CHR 0x22 else c) s"

text \<open>The six replacements of the \<^verbatim>\<open>try\<close> block, in the order of the source.\<close>

definition regex_repair :: "string \<Rightarrow> string" where
  "regex_repair fixed =
     restore_escaped_quotes
       (gsub (match_after CHR ''{'')
         (gsub (match_after CHR '','')
           (gsub (match_after CHR ''['')
             (gsub (match_after CHR '':'')
               (gsub match_key
                 (mark_escaped_quotes fixed))))))"

text \<open>
  \<^verbatim>\<open>fixSingleQuoteJson\<close>.  Each \<^verbatim>\<open>JSON.parse\<close> stands in a \<^verbatim>\<open>try\<close>; a
  \<^term>\<open>None\<close> of \<^term>\<open>rt_parse rt\<close> is the thrown \<^verbatim>\<open>SyntaxError\<close>, handled by the
  \<^verbatim>\<open>catch\<close> that follows.  The variable \<^verbatim>\<open>fixed\<close> holds the result of the pattern
  repair when the outer \<^verbatim>\<open>catch\<close> is entered.
\<close>

definition fixSingleQuoteJson :: "'j js_runtime \<Rightarrow> string \<Rightarrow> js_error + string" where
  "fixSingleQuoteJson rt jsonStr =
     (if jsonStr = [] then Inr jsonStr
      else case rt_parse rt jsonStr of
        Some v \<Rightarrow> Inr jsonStr
      | None \<Rightarrow>
          (let fixed = trim jsonStr in
           if \<not> startsWith fixed CHR ''{'' \<and> \<not> startsWith fixed CHR ''['' then Inr jsonStr
           else
             (let fixed = regex_repair fixed in
              case rt_parse rt fixed of
                Some v \<Rightarrow> Inr fixed
              | None \<Rightarrow>
                  if startsWith fixed CHR ''{'' \<and> endsWith fixed CHR ''}'' then
                    (let aggressiveFix = replace_quotes fixed in
                     case rt_parse rt aggressiveFix of
                       Some v \<Rightarrow> Inr aggressiveFix
                     | None \<Rightarrow> Inr jsonStr)
                  else Inr jsonStr)))"

text \<open>\<^verbatim>\<open>safeParseJson\<close>; the \<^verbatim>\<open>catch\<close> around the repair returns the default.\<close>

definition safeParseJson :: "'j js_runtime \<Rightarrow> string \<Rightarrow> 'j \<Rightarrow> 'j" where
  "safeParseJson rt jsonStr defaultValue =
     (if jsonStr = [] then defaultValue
      else case rt_parse rt jsonStr of
        Some v \<Rightarrow> v
      | None \<Rightarrow>
          (case fixSingleQuoteJson rt jsonStr of
             Inl e \<Rightarrow> defaultValue
           | Inr fixed \<Rightarrow>
               if fixed \<noteq> jsonStr then
                 (case rt_parse rt fixed of Some v \<Rightarrow> v | None \<Rightarrow> defaultValue)
               else defaultValue))"

definition fixToolCallArguments :: "'j js_runtime \<Rightarrow> string \<Rightarrow> 'j" where
  "fixToolCallArguments rt argsStr = safeParseJson rt argsStr (rt_empty_object rt)"

section \<open>A model of the runtime's JSON\<close>

text \<open>
  A concrete \<^verbatim>\<open>JSON.parse\<close>, after the JSON grammar (ECMA-404), for the concrete inputs
  of the examples below; the general properties hold for every runtime.  A value keeps its
  numbers and strings as the literals of the text (a number is not rounded to a double, an
  escape sequence in a string is checked and kept), and an object keeps its members as
  written.  The text is cut into tokens, and the tokens are read with a stack of the open
  arrays and objects.
\<close>

datatype json =
    JNull | JBool bool | JNum string | JStr string
  | JArr "json list" | JObj "(string \<times> json) list"

datatype token =
    TLBrace | TRBrace | TLBrack | TRBrack | TColon | TComma
  | TTrue | TFalse | TNull | TNum string | TStr string

definition is_digit :: "char \<Rightarrow> bool" where
  "is_digit c = (c \<in> set ''0123456789'')"

definition is_hex :: "char \<Rightarrow> bool" where
  "is_hex c = (c \<in> set ''0123456789abcdefABCDEF'')"

definition is_json_ws :: "char \<Rightarrow> bool" where
  "is_json_ws c = (c \<in> set [CHR 0x20, CHR 0x09, CHR 0x0A, CHR 0x0D])"

text \<open>The body of a string literal up to the closing quote: no control character, a
  backslash only before an escape character or before \<^verbatim>\<open>u\<close> and four hexadecimal
  digits.\<close>

definition is_escape_char :: "char \<Rightarrow> bool" where
  "is_escape_char e =
     (e \<in> set [CHR 0x22, CHR 0x5C, CHR ''/'', CHR ''b'', CHR ''f'', CHR ''n'', CHR ''r'', CHR ''t''])"

datatype string_mode = InString | AfterBackslash | HexDigits nat

fun scan_string :: "string_mode \<Rightarrow> string \<Rightarrow> (string \<times> string) option" where
  "scan_string m [] = None"
| "scan_string InString (c # cs) =
     (if c = CHR 0x22 then Some ([], cs)
      else if c = CHR 0x5C then map_option (\<lambda>(b, r). (c # b, r)) (scan_string AfterBackslash cs)
      else if of_char c < (32 :: nat) then None
      else map_option (\<lambda>(b, r). (c # b, r)) (scan_string InString cs))"
| "scan_string AfterBackslash (c # cs) =
     (if is_escape_char c then map_option (\<lambda>(b, r). (c # b, r)) (scan_string InString cs)
      else if c = CHR ''u'' then map_option (\<lambda>(b, r). (c # b, r)) (scan_string (HexDigits 3) cs)
      else None)"
| "scan_string (HexDigits n) (c # cs) =
     (if is_hex c
      then map_option (\<lambda>(b, r). (c # b, r))
             (scan_string (case n of 0 \<Rightarrow> InString | Suc k \<Rightarrow> HexDigits k) cs)
      else None)"

definition lex_string :: "string \<Rightarrow> (string \<times> string) option" where
  "lex_string s = scan_string InString s"

text \<open>A number literal: an optional minus, an integer part without a leading zero, an
  optional fraction, an optional exponent.  The token is the longest run of characters that
  can occur in a number, and it has to be a number literal as a whole (in JSON text a
  number is followed by whitespace, a comma, a closing bracket or brace, or the end).\<close>

definition lex_digits :: "string \<Rightarrow> (string \<times> string) option" where
  "lex_digits s =
     (if takeWhile is_digit s = [] then None
      else Some (takeWhile is_digit s, dropWhile is_digit s))"

definition lex_int :: "string \<Rightarrow> (string \<times> string) option" where
  "lex_int s =
     (case s of
        [] \<Rightarrow> None
      | d # r \<Rightarrow> if d = CHR ''0'' then Some ([d], r) else lex_digits s)"

definition lex_frac :: "string \<Rightarrow> (string \<times> string) option" where
  "lex_frac s =
     (case s of
        [] \<Rightarrow> Some ([], s)
      | d # r \<Rightarrow>
          if d = CHR ''.'' then map_option (\<lambda>(ds, r'). (d # ds, r')) (lex_digits r)
          else Some ([], s))"

definition lex_sign :: "string \<Rightarrow> string \<times> string" where
  "lex_sign s =
     (case s of
        [] \<Rightarrow> ([], s)
      | c # r \<Rightarrow> if c = CHR ''+'' \<or> c = CHR ''-'' then ([c], r) else ([], s))"

definition lex_exp :: "string \<Rightarrow> (string \<times> string) option" where
  "lex_exp s =
     (case s of
        [] \<Rightarrow> Some ([], s)
      | e # r \<Rightarrow>
          if e = CHR ''e'' \<or> e = CHR ''E'' then
            map_option (\<lambda>(ds, r'). (e # fst (lex_sign r) @ ds, r')) (lex_digits (snd (lex_sign r)))
          else Some ([], s))"

definition lex_minus :: "string \<Rightarrow> string \<times> string" where
  "lex_minus s =
     (case s of
        [] \<Rightarrow> ([], s)
      | c # r \<Rightarrow> if c = CHR ''-'' then ([c], r) else ([], s))"

definition scan_number :: "string \<Rightarrow> (string \<times> string) option" where
  "scan_number s =
     (case lex_int (snd (lex_minus s)) of
        None \<Rightarrow> None
      | Some (ip, r1) \<Rightarrow>
          (case lex_frac r1 of
             None \<Rightarrow> None
           | Some (fp, r2) \<Rightarrow>
               (case lex_exp r2 of
                  None \<Rightarrow> None
                | Some (ep, r3) \<Rightarrow> Some (fst (lex_minus s) @ ip @ fp @ ep, r3))))"

definition is_number_char :: "char \<Rightarrow> bool" where
  "is_number_char c = (c \<in> set ''0123456789+-.eE'')"

definition valid_number :: "string \<Rightarrow> bool" where
  "valid_number n = (case scan_number n of None \<Rightarrow> False | Some (a, r) \<Rightarrow> r = [])"

definition lex_number :: "string \<Rightarrow> (string \<times> string) option" where
  "lex_number s =
     (if valid_number (takeWhile is_number_char s)
      then Some (takeWhile is_number_char s, dropWhile is_number_char s) else None)"

definition lex_literal :: "string \<Rightarrow> (token \<times> string) option" where
  "lex_literal s =
     (if take 4 s = ''true'' then Some (TTrue, drop 4 s)
      else if take 5 s = ''false'' then Some (TFalse, drop 5 s)
      else if take 4 s = ''null'' then Some (TNull, drop 4 s)
      else None)"

definition punctuation :: "char \<Rightarrow> token option" where
  "punctuation c =
     (if c = CHR ''{'' then Some TLBrace else if c = CHR ''}'' then Some TRBrace
      else if c = CHR ''['' then Some TLBrack else if c = CHR '']'' then Some TRBrack
      else if c = CHR '':'' then Some TColon else if c = CHR '','' then Some TComma
      else None)"

lemma scan_string_shorter: "scan_string m s = Some (b, r) \<Longrightarrow> length r < length s"
  by (induction m s arbitrary: b r rule: scan_string.induct) (auto split: if_splits)

lemma lex_string_shorter: "lex_string s = Some (b, r) \<Longrightarrow> length r < length s"
  unfolding lex_string_def by (rule scan_string_shorter)

lemma valid_number_nonempty: "valid_number n \<Longrightarrow> n \<noteq> []"
  by (auto simp: valid_number_def scan_number_def lex_minus_def lex_int_def)

lemma lex_number_shorter: "lex_number s = Some (b, r) \<Longrightarrow> length r < length s"
proof -
  assume "lex_number s = Some (b, r)"
  then have r: "r = dropWhile is_number_char s" and "takeWhile is_number_char s \<noteq> []"
    by (auto simp: lex_number_def split: if_splits dest: valid_number_nonempty)
  then obtain c cs where "s = c # cs" and "is_number_char c"
    by (cases s) (auto split: if_splits)
  with r show ?thesis
    by (simp add: le_imp_less_Suc length_dropWhile_le)
qed

lemma lex_literal_shorter: "lex_literal s = Some (t, r) \<Longrightarrow> length r < length s"
  by (cases s) (auto simp: lex_literal_def split: if_splits)

function tokenize :: "string \<Rightarrow> token list option" where
  "tokenize [] = Some []"
| "tokenize (c # cs) =
     (if is_json_ws c then tokenize cs
      else case punctuation c of
        Some t \<Rightarrow> map_option (Cons t) (tokenize cs)
      | None \<Rightarrow>
          if c = CHR 0x22 then
            (case lex_string cs of
               None \<Rightarrow> None
             | Some (b, r) \<Rightarrow> map_option (Cons (TStr b)) (tokenize r))
          else if c = CHR ''-'' \<or> is_digit c then
            (case lex_number (c # cs) of
               None \<Rightarrow> None
             | Some (n, r) \<Rightarrow> map_option (Cons (TNum n)) (tokenize r))
          else
            (case lex_literal (c # cs) of
               None \<Rightarrow> None
             | Some (t, r) \<Rightarrow> map_option (Cons t) (tokenize r)))"
  by pat_completeness auto
termination
  by (relation "measure length")
    (auto dest: lex_string_shorter lex_number_shorter lex_literal_shorter)

text \<open>
  Reading the tokens.  \<open>expect_value st ts\<close> reads a value from \<open>ts\<close> below the open
  arrays and objects \<open>st\<close>; \<open>feed st v ts\<close> continues after the value \<open>v\<close> has been
  read.  A frame holds the elements (or the members and the pending key) read so far.
\<close>

datatype frame = ArrFrame "json list" | ObjFrame "(string \<times> json) list" string

fun expect_value :: "frame list \<Rightarrow> token list \<Rightarrow> json option"
  and feed :: "frame list \<Rightarrow> json \<Rightarrow> token list \<Rightarrow> json option" where
  "expect_value st [] = None"
| "expect_value st (t # ts) =
     (case t of
        TNull \<Rightarrow> feed st JNull ts
      | TTrue \<Rightarrow> feed st (JBool True) ts
      | TFalse \<Rightarrow> feed st (JBool False) ts
      | TNum n \<Rightarrow> feed st (JNum n) ts
      | TStr s \<Rightarrow> feed st (JStr s) ts
      | TLBrack \<Rightarrow>
          (case ts of
             TRBrack # ts' \<Rightarrow> feed st (JArr []) ts'
           | _ \<Rightarrow> expect_value (ArrFrame [] # st) ts)
      | TLBrace \<Rightarrow>
          (case ts of
             TRBrace # ts' \<Rightarrow> feed st (JObj []) ts'
           | TStr k # TColon # ts' \<Rightarrow> expect_value (ObjFrame [] k # st) ts'
           | _ \<Rightarrow> None)
      | _ \<Rightarrow> None)"
| "feed [] v ts = (if ts = [] then Some v else None)"
| "feed (ArrFrame acc # st) v ts =
     (case ts of
        TComma # ts' \<Rightarrow> expect_value (ArrFrame (acc @ [v]) # st) ts'
      | TRBrack # ts' \<Rightarrow> feed st (JArr (acc @ [v])) ts'
      | _ \<Rightarrow> None)"
| "feed (ObjFrame acc k # st) v ts =
     (case ts of
        TComma # TStr k' # TColon # ts' \<Rightarrow> expect_value (ObjFrame (acc @ [(k, v)]) k' # st) ts'
      | TRBrace # ts' \<Rightarrow> feed st (JObj (acc @ [(k, v)])) ts'
      | _ \<Rightarrow> None)"

definition json_parse :: "string \<Rightarrow> json option" where
  "json_parse s = (case tokenize s of None \<Rightarrow> None | Some ts \<Rightarrow> expect_value [] ts)"

subsection \<open>The runtime instance\<close>

text \<open>Truthiness of a parsed value: \<^verbatim>\<open>null\<close>, \<^verbatim>\<open>false\<close>, a number equal to zero
  (no non-zero digit in its mantissa) and the empty string are falsy.\<close>

fun json_truthy :: "json \<Rightarrow> bool" where
  "json_truthy JNull = False"
| "json_truthy (JBool b) = b"
| "json_truthy (JNum n) =
     (\<exists>c \<in> set (takeWhile (\<lambda>c. c \<noteq> CHR ''e'' \<and> c \<noteq> CHR ''E'') n). c \<in> set ''123456789'')"
| "json_truthy (JStr s) = (s \<noteq> [])"
| "json_truthy (JArr vs) = True"
| "json_truthy (JObj ms) = True"

fun separate :: "string \<Rightarrow> string list \<Rightarrow> string" where
  "separate sep [] = []"
| "separate sep [x] = x"
| "separate sep (x # y # ys) = x @ sep @ separate sep (y # ys)"

fun json_stringify :: "json \<Rightarrow> string" where
  "json_stringify JNull = ''null''"
| "json_stringify (JBool b) = (if b then ''true'' else ''false'')"
| "json_stringify (JNum n) = n"
| "json_stringify (JStr s) = [CHR 0x22] @ s @ [CHR 0x22]"
| "json_stringify (JArr vs) = ''['' @ separate '','' (map json_stringify vs) @ '']''"
| "json_stringify (JObj ms) =
     ''{'' @ separate '',''
        (map (\<lambda>kv. [CHR 0x22] @ fst kv @ [CHR 0x22] @ '':'' @ json_stringify (snd kv)) ms) @ ''}''"

definition js_rt :: "json js_runtime" where
  "js_rt = \<lparr>rt_parse = json_parse, rt_stringify = json_stringify,
            rt_truthy = json_truthy, rt_empty_object = JObj []\<rparr>"

section \<open>Provider chunks and responses\<close>

record function_delta =
  fn_name :: "string option"
  fn_arguments :: "string option"

record tool_call_delta =
  tcd_index :: "nat option"
  tcd_id :: "string option"
  tcd_function :: "function_delta option"

record chunk_delta =
  delta_content :: "string option"
  delta_tool_calls :: "tool_call_delta list option"

record chunk_choice =
  choice_delta :: chunk_delta
  choice_finish_reason :: "string option"

record chunk =
  chunk_model :: string
  chunk_choices :: "chunk_choice list"

record completion_message =
  msg_content :: "string option"
  msg_tool_calls :: "openai_tool_call option list option"

record completion_choice =
  cc_message :: completion_message
  cc_finish_reason :: "string option"

record usage =
  prompt_tokens :: "nat option"
  completion_tokens :: "nat option"

record chat_completion =
  cmpl_model :: string
  cmpl_choices :: "completion_choice list"
  cmpl_usage :: "usage option"

text \<open>\<^verbatim>\<open>chunk.choices[0]\<close>, which is \<^verbatim>\<open>undefined\<close> for an empty array.\<close>

definition first_choice :: "chunk \<Rightarrow> chunk_choice option" where
  "first_choice c = (case chunk_choices c of [] \<Rightarrow> None | ch # chs \<Rightarrow> Some ch)"

section \<open>Canonical responses and events\<close>

datatype 'j response_block = TextContent string | ToolUseContent string string 'j

record 'j claude_message =
  m_model :: string
  m_content :: "'j response_block list"
  m_stop_reason :: "js_value option"
  m_input_tokens :: nat
  m_output_tokens :: nat

datatype stream_delta = TextDelta string | InputJsonDelta string

datatype 'j event =
    MessageStart "'j claude_message"
  | ContentBlockStart nat "'j response_block"
  | ContentBlockDelta nat stream_delta
  | ContentBlockStop nat
  | MessageDelta "js_value option"
  | MessageStop

section \<open>Non-streaming response transform\<close>

text \<open>The loop over \<^verbatim>\<open>choice.message.tool_calls\<close>.  The array built by the
  reconstruction can have holes; the iteration yields \<^verbatim>\<open>undefined\<close> for a hole and
  reading \<^verbatim>\<open>toolCall.id\<close> then throws a \<^verbatim>\<open>TypeError\<close>.\<close>

fun tool_use_blocks ::
  "'j js_runtime \<Rightarrow> openai_tool_call option list \<Rightarrow> js_error + 'j response_block list" where
  "tool_use_blocks rt [] = Inr []"
| "tool_use_blocks rt (None # toolCalls) = Inl TypeError"
| "tool_use_blocks rt (Some toolCall # toolCalls) =
     (case tool_use_blocks rt toolCalls of
        Inl e \<Rightarrow> Inl e
      | Inr blocks \<Rightarrow>
          Inr (ToolUseContent (call_id toolCall) (call_name toolCall)
                 (fixToolCallArguments rt
                    (if call_arguments toolCall \<noteq> [] then call_arguments toolCall else ''{}''))
               # blocks))"

definition transformResponse :: "'j js_runtime \<Rightarrow> chat_completion \<Rightarrow> js_error + 'j claude_message" where
  "transformResponse rt response =
     (case cmpl_choices response of
        [] \<Rightarrow> Inl TypeError
      | choice # choices \<Rightarrow>
          (let text = (if truthy_str (msg_content (cc_message choice))
                       then [TextContent (the (msg_content (cc_message choice)))] else []);
               tools = (case msg_tool_calls (cc_message choice) of
                          None \<Rightarrow> Inr []
                        | Some toolCalls \<Rightarrow> tool_use_blocks rt toolCalls)
           in case tools of
                Inl e \<Rightarrow> Inl e
              | Inr blocks \<Rightarrow>
                  Inr \<lparr>m_model = cmpl_model response,
                       m_content = text @ blocks,
                       m_stop_reason = Some (mapFinishReason (cc_finish_reason choice)),
                       m_input_tokens =
                         (case cmpl_usage response of
                            None \<Rightarrow> 0
                          | Some u \<Rightarrow> (case prompt_tokens u of None \<Rightarrow> 0 | Some n \<Rightarrow> n)),
                       m_output_tokens =
                         (case cmpl_usage response of
                            None \<Rightarrow> 0
                          | Some u \<Rightarrow> (case completion_tokens u of None \<Rightarrow> 0 | Some n \<Rightarrow> n))\<rparr>))"

section \<open>Reconstruction of a complete response from buffered chunks\<close>

text \<open>The decimal representation of an index, for the identifier \<^verbatim>\<open>tool_${index}\<close>.\<close>

definition digit_char :: "nat \<Rightarrow> char" where
  "digit_char d = ''0123456789'' ! d"

fun string_of_nat :: "nat \<Rightarrow> string" where
  "string_of_nat n =
     (case n div 10 of
        0 \<Rightarrow> [digit_char n]
      | Suc q \<Rightarrow> string_of_nat (Suc q) @ [digit_char (n mod 10)])"

declare string_of_nat.simps [simp del]

text \<open>
  \<^verbatim>\<open>toolCallsMap\<close> is an insertion-ordered \<^verbatim>\<open>Map\<close> from indices to tool-call objects,
  here an association list.  One tool-call delta creates the entry of its index when there
  is none, then overwrites the name when the delta has one and appends the argument
  fragment when the delta has one; the object is mutated in place, that is, the entry is
  replaced where it stands.
\<close>

definition delta_index :: "tool_call_delta \<Rightarrow> nat" where
  "delta_index toolCall = (case tcd_index toolCall of None \<Rightarrow> 0 | Some i \<Rightarrow> i)"

definition delta_name :: "tool_call_delta \<Rightarrow> string option" where
  "delta_name toolCall = (case tcd_function toolCall of None \<Rightarrow> None | Some f \<Rightarrow> fn_name f)"

definition delta_arguments :: "tool_call_delta \<Rightarrow> string option" where
  "delta_arguments toolCall = (case tcd_function toolCall of None \<Rightarrow> None | Some f \<Rightarrow> fn_arguments f)"

definition new_tool_call :: "tool_call_delta \<Rightarrow> openai_tool_call" where
  "new_tool_call toolCall =
     \<lparr>call_id = (if truthy_str (tcd_id toolCall) then the (tcd_id toolCall)
                 else ''tool_'' @ string_of_nat (delta_index toolCall)),
      call_type = ''function'', call_name = [], call_arguments = []\<rparr>"

definition merge_tool_call ::
  "(nat \<times> openai_tool_call) list \<Rightarrow> tool_call_delta \<Rightarrow> (nat \<times> openai_tool_call) list" where
  "merge_tool_call toolCallsMap toolCall =
     (let index = delta_index toolCall;
          created = (if map_of toolCallsMap index = None
                     then toolCallsMap @ [(index, new_tool_call toolCall)] else toolCallsMap);
          existing = the (map_of created index);
          named = (if truthy_str (delta_name toolCall)
                   then existing\<lparr>call_name := the (delta_name toolCall)\<rparr> else existing);
          extended = (if truthy_str (delta_arguments toolCall)
                      then named\<lparr>call_arguments := call_arguments named @ the (delta_arguments toolCall)\<rparr>
                      else named)
      in AList.update index extended created)"

record reconstruction =
  rc_content :: string
  rc_tool_calls :: "(nat \<times> openai_tool_call) list"
  rc_finish_reason :: "string option"

definition reconstruct_step :: "reconstruction \<Rightarrow> chunk \<Rightarrow> reconstruction" where
  "reconstruct_step acc chunk =
     (case first_choice chunk of
        None \<Rightarrow> acc
      | Some choice \<Rightarrow>
          (let acc1 = (if truthy_str (delta_content (choice_delta choice))
                       then acc\<lparr>rc_content := rc_content acc @ the (delta_content (choice_delta choice))\<rparr>
                       else acc);
               acc2 = (case delta_tool_calls (choice_delta choice) of
                         None \<Rightarrow> acc1
                       | Some toolCalls \<Rightarrow>
                           acc1\<lparr>rc_tool_calls := foldl merge_tool_call (rc_tool_calls acc1) toolCalls\<rparr>)
           in if truthy_str (choice_finish_reason choice)
              then acc2\<lparr>rc_finish_reason := choice_finish_reason choice\<rparr> else acc2))"

text \<open>\<^verbatim>\<open>toolCalls[index] = toolCall\<close> on a JavaScript array: an index past the end
  extends the array and leaves holes (\<^term>\<open>None\<close>) in between.\<close>

definition array_assign :: "'a option list \<Rightarrow> nat \<Rightarrow> 'a \<Rightarrow> 'a option list" where
  "array_assign arr i v =
     (if i < length arr then arr[i := Some v]
      else arr @ replicate (i - length arr) None @ [Some v])"

definition to_array :: "(nat \<times> 'a) list \<Rightarrow> 'a option list" where
  "to_array entries = foldl (\<lambda>arr (i, v). array_assign arr i v) [] entries"

definition reconstructCompletionFromChunks :: "chunk list \<Rightarrow> js_error + chat_completion" where
  "reconstructCompletionFromChunks chunks =
     (case chunks of
        [] \<Rightarrow> Inl NoChunks
      | firstChunk # others \<Rightarrow>
          (let acc = foldl reconstruct_step
                       \<lparr>rc_content = [], rc_tool_calls = [], rc_finish_reason = None\<rparr> chunks;
               toolCalls = to_array (rc_tool_calls acc)
           in Inr \<lparr>cmpl_model = chunk_model firstChunk,
                   cmpl_choices =
                     [\<lparr>cc_message =
                         \<lparr>msg_content = (if rc_content acc \<noteq> [] then Some (rc_content acc) else None),
                          msg_tool_calls = (if toolCalls \<noteq> [] then Some toolCalls else None)\<rparr>,
                       cc_finish_reason = rc_finish_reason acc\<rparr>],
                   cmpl_usage = Some \<lparr>prompt_tokens = Some 0, completion_tokens = Some 0\<rparr>\<rparr>))"

section \<open>The stream controller\<close>

text \<open>
  The \<^verbatim>\<open>ReadableStreamDefaultController\<close> of the runtime, after the Streams standard, as
  far as the engine uses it.  A chunk passed to \<^verbatim>\<open>enqueue\<close> goes to a pending read
  request of the consumer when there is one, and into the queue otherwise.  \<^verbatim>\<open>error\<close>
  empties the queue and puts the stream into the errored state; \<^verbatim>\<open>close\<close> leaves the
  queue to be read.  \<^verbatim>\<open>enqueue\<close> and \<^verbatim>\<open>close\<close> throw a \<^verbatim>\<open>TypeError\<close> on a
  stream that is not readable or is already closing; \<^verbatim>\<open>error\<close> does nothing on a stream
  that is not readable.
\<close>

datatype stream_state = Readable | Closed | Errored js_error

record 'c controller =
  ctl_state :: stream_state
  ctl_close_requested :: bool
  ctl_queue :: "'c list"
  ctl_read_requests :: nat
  ctl_fulfilled :: "'c list"

definition can_close_or_enqueue :: "'c controller \<Rightarrow> bool" where
  "can_close_or_enqueue c = (ctl_state c = Readable \<and> \<not> ctl_close_requested c)"

definition controller_enqueue :: "'c controller \<Rightarrow> 'c \<Rightarrow> js_error + 'c controller" where
  "controller_enqueue c chunk =
     (if \<not> can_close_or_enqueue c then Inl TypeError
      else if 0 < ctl_read_requests c
      then Inr (c\<lparr>ctl_read_requests := ctl_read_requests c - 1,
                  ctl_fulfilled := ctl_fulfilled c @ [chunk]\<rparr>)
      else Inr (c\<lparr>ctl_queue := ctl_queue c @ [chunk]\<rparr>))"

definition controller_error :: "js_error \<Rightarrow> 'c controller \<Rightarrow> 'c controller" where
  "controller_error e c =
     (if ctl_state c \<noteq> Readable then c
      else c\<lparr>ctl_queue := [], ctl_read_requests := 0, ctl_state := Errored e\<rparr>)"

definition controller_close :: "'c controller \<Rightarrow> js_error + 'c controller" where
  "controller_close c =
     (if \<not> can_close_or_enqueue c then Inl TypeError
      else if ctl_queue c = []
      then Inr (c\<lparr>ctl_close_requested := True, ctl_read_requests := 0, ctl_state := Closed\<rparr>)
      else Inr (c\<lparr>ctl_close_requested := True\<rparr>))"

text \<open>
  The controller that the engine finds when it starts to write: the stream is readable (the
  consumer has not cancelled it) and nothing has been enqueued (the engine buffers the whole
  provider stream first), and the consumer has \<open>n\<close> read requests pending.  A consumer
  that awaits each \<^verbatim>\<open>read()\<close> before the next has at most one.  The engine writes and
  closes without an \<^verbatim>\<open>await\<close> in between, so no read request arrives while it does.
\<close>

definition start_controller :: "nat \<Rightarrow> 'c controller" where
  "start_controller n =
     \<lparr>ctl_state = Readable, ctl_close_requested = False, ctl_queue = [],
      ctl_read_requests = n, ctl_fulfilled = []\<rparr>"

text \<open>
  What the consumer reads from the stream: the chunks that fulfilled its read requests, then
  the chunks still in the queue; after them the end of the stream, or the stored error when
  the stream is errored.
\<close>

definition received :: "'c controller \<Rightarrow> 'c list" where
  "received c = ctl_fulfilled c @ ctl_queue c"

definition stored_error :: "'c controller \<Rightarrow> js_error option" where
  "stored_error c = (case ctl_state c of Errored e \<Rightarrow> Some e | _ \<Rightarrow> None)"

text \<open>A run of \<^verbatim>\<open>controller.enqueue\<close> calls; a call that throws ends the run, with the
  controller as the calls before it left it.\<close>

fun enqueue_all :: "'c controller \<Rightarrow> 'c list \<Rightarrow> 'c controller \<times> js_error option" where
  "enqueue_all c [] = (c, None)"
| "enqueue_all c (chunk # chunks) =
     (case controller_enqueue c chunk of
        Inl e \<Rightarrow> (c, Some e)
      | Inr c' \<Rightarrow> enqueue_all c' chunks)"

section \<open>Streaming engine\<close>

text \<open>
  The functions that write to the stream are given as the events they pass to
  \<^verbatim>\<open>controller.enqueue\<close>, in order, and the run of these calls on the controller.  An
  event stands for its server-sent-event text
  (\<^verbatim>\<open>encoder.encode(this.createSSEEvent(...))\<close>).
\<close>

text \<open>\<^verbatim>\<open>outputClaudeMessageAsStream\<close>: the events of the content blocks, with the
  running \<^verbatim>\<open>contentIndex\<close>; around them \<^verbatim>\<open>message_start\<close> with the whole message,
  and \<^verbatim>\<open>message_delta\<close> with its stop reason and \<^verbatim>\<open>message_stop\<close>.  The
  \<^verbatim>\<open>catch\<close> of the function rethrows.\<close>

fun output_blocks :: "'j js_runtime \<Rightarrow> nat \<Rightarrow> 'j response_block list \<Rightarrow> 'j event list" where
  "output_blocks rt contentIndex [] = []"
| "output_blocks rt contentIndex (TextContent t # blocks) =
     [ContentBlockStart contentIndex (TextContent t),
      ContentBlockDelta contentIndex (TextDelta t),
      ContentBlockStop contentIndex]
     @ output_blocks rt (Suc contentIndex) blocks"
| "output_blocks rt contentIndex (ToolUseContent tid name input # blocks) =
     [ContentBlockStart contentIndex (ToolUseContent tid name input),
      ContentBlockDelta contentIndex
        (InputJsonDelta (rt_stringify rt (if rt_truthy rt input then input else rt_empty_object rt))),
      ContentBlockStop contentIndex]
     @ output_blocks rt (Suc contentIndex) blocks"

definition message_events :: "'j js_runtime \<Rightarrow> 'j claude_message \<Rightarrow> 'j event list" where
  "message_events rt claudeMessage =
     [MessageStart claudeMessage]
     @ output_blocks rt 0 (m_content claudeMessage)
     @ [MessageDelta (m_stop_reason claudeMessage), MessageStop]"

definition outputClaudeMessageAsStream ::
  "'j js_runtime \<Rightarrow> 'j claude_message \<Rightarrow> 'j event controller \<Rightarrow> 'j event controller \<times> js_error option" where
  "outputClaudeMessageAsStream rt claudeMessage controller =
     enqueue_all controller (message_events rt claudeMessage)"

text \<open>\<^verbatim>\<open>outputChunksAsStream\<close>: the loop over the buffered chunks with its two flags;
  \<^verbatim>\<open>contentIndex\<close> stays 0.  The block and the message are closed where a chunk has a
  finish reason, and nowhere else.\<close>

fun output_chunks :: "bool \<Rightarrow> bool \<Rightarrow> chunk list \<Rightarrow> 'j event list" where
  "output_chunks messageStarted contentStarted [] = []"
| "output_chunks messageStarted contentStarted (chunk # chunks) =
     (if \<not> messageStarted
      then [MessageStart \<lparr>m_model = chunk_model chunk, m_content = [], m_stop_reason = None,
                          m_input_tokens = 0, m_output_tokens = 0\<rparr>]
      else [])
     @ (case first_choice chunk of
          None \<Rightarrow> output_chunks True contentStarted chunks
        | Some choice \<Rightarrow>
            (let has_content = truthy_str (delta_content (choice_delta choice));
                 started = (contentStarted \<or> has_content)
             in (if has_content
                 then (if \<not> contentStarted then [ContentBlockStart 0 (TextContent [])] else [])
                      @ [ContentBlockDelta 0 (TextDelta (the (delta_content (choice_delta choice))))]
                 else [])
                @ (if truthy_str (choice_finish_reason choice)
                   then (if started then [ContentBlockStop 0] else [])
                        @ [MessageDelta (Some (mapFinishReason (choice_finish_reason choice))),
                           MessageStop]
                   else [])
                @ output_chunks True started chunks))"

definition chunk_events :: "chunk list \<Rightarrow> 'j event list" where
  "chunk_events chunks = output_chunks False False chunks"

definition outputChunksAsStream ::
  "chunk list \<Rightarrow> 'j event controller \<Rightarrow> 'j event controller \<times> js_error option" where
  "outputChunksAsStream chunks controller = enqueue_all controller (chunk_events chunks)"

text \<open>
  \<^verbatim>\<open>handleStreamError\<close>: the three recovery events are enqueued inside a \<^verbatim>\<open>try\<close>
  whose \<^verbatim>\<open>catch\<close> only logs, and then \<^verbatim>\<open>controller.error\<close> is called with a new
  error that wraps the message of the one handled.
\<close>

definition recovery_events :: "'j event list" where
  "recovery_events =
     [MessageStart \<lparr>m_model = ''unknown'', m_content = [], m_stop_reason = Some (JString ''error''),
                    m_input_tokens = 0, m_output_tokens = 0\<rparr>,
      MessageDelta (Some (JString ''error'')),
      MessageStop]"

definition handleStreamError :: "js_error \<Rightarrow> 'j event controller \<Rightarrow> 'j event controller" where
  "handleStreamError error controller =
     controller_error (StreamingFailed error) (fst (enqueue_all controller recovery_events))"

text \<open>
  The provider's stream: the chunks it yields and, when the iteration throws after them, the
  message of the error.  \<^verbatim>\<open>transformStreamResponse\<close> first buffers every chunk; the
  body of its \<^verbatim>\<open>try\<close> then writes along one of the two paths.  An exception goes to
  \<^verbatim>\<open>handleStreamError\<close>, and \<^verbatim>\<open>finally\<close> calls \<^verbatim>\<open>controller.close()\<close>.  When
  that call throws, the promise of \<^verbatim>\<open>start\<close> is rejected and the runtime errors the
  controller with the reason.
\<close>

record upstream =
  up_chunks :: "chunk list"
  up_failure :: "string option"

definition carries_tool_calls :: "chunk \<Rightarrow> bool" where
  "carries_tool_calls c =
     (case first_choice c of
        None \<Rightarrow> False
      | Some choice \<Rightarrow> delta_tool_calls (choice_delta choice) \<noteq> None)"

definition hasToolCalls :: "chunk list \<Rightarrow> bool" where
  "hasToolCalls chunks = list_ex carries_tool_calls chunks"

definition stream_body ::
  "'j js_runtime \<Rightarrow> upstream \<Rightarrow> 'j event controller \<Rightarrow> 'j event controller \<times> js_error option" where
  "stream_body rt up controller =
     (case up_failure up of
        Some msg \<Rightarrow> (controller, Some (UpstreamFailure msg))
      | None \<Rightarrow>
          if hasToolCalls (up_chunks up) then
            (case reconstructCompletionFromChunks (up_chunks up) of
               Inl e \<Rightarrow> (controller, Some e)
             | Inr completeResponse \<Rightarrow>
                 (case transformResponse rt completeResponse of
                    Inl e \<Rightarrow> (controller, Some e)
                  | Inr claudeMessage \<Rightarrow> outputClaudeMessageAsStream rt claudeMessage controller))
          else outputChunksAsStream (up_chunks up) controller)"

definition transformStreamResponse ::
  "'j js_runtime \<Rightarrow> upstream \<Rightarrow> 'j event controller \<Rightarrow> 'j event controller" where
  "transformStreamResponse rt up controller =
     (let handled = (case stream_body rt up controller of
                       (written, None) \<Rightarrow> written
                     | (written, Some e) \<Rightarrow> handleStreamError e written)
      in case controller_close handled of
           Inr closed \<Rightarrow> closed
         | Inl e \<Rightarrow> controller_error e handled)"

section \<open>The event protocol\<close>

text \<open>
  A recogniser of the canonical event sequences: one \<^verbatim>\<open>message_start\<close>; then blocks,
  each a \<^verbatim>\<open>content_block_start\<close>, one or more \<^verbatim>\<open>content_block_delta\<close> of the
  block's kind and index, and a \<^verbatim>\<open>content_block_stop\<close>, with increasing indices and no
  text block after a tool-use block; then a \<^verbatim>\<open>message_delta\<close> that carries a stop
  reason (a string); then \<^verbatim>\<open>message_stop\<close>, after which nothing follows.
\<close>

datatype protocol_state =
    AwaitStart
  | BetweenBlocks bool nat
  | InBlock nat bool bool bool
  | AwaitStop
  | Finished

fun is_tool_use :: "'j response_block \<Rightarrow> bool" where
  "is_tool_use (ToolUseContent tid name input) = True"
| "is_tool_use (TextContent t) = False"

fun is_json_delta :: "stream_delta \<Rightarrow> bool" where
  "is_json_delta (InputJsonDelta p) = True"
| "is_json_delta (TextDelta t) = False"

fun is_stop_reason :: "js_value option \<Rightarrow> bool" where
  "is_stop_reason (Some (JString r)) = True"
| "is_stop_reason (Some (PrototypeMember k)) = False"
| "is_stop_reason None = False"

text \<open>\<^term>\<open>BetweenBlocks tool_seen n\<close>: a tool-use block was seen, the next index is at
  least \<open>n\<close>.  \<^term>\<open>InBlock i tool has_delta tool_seen\<close>: inside block \<open>i\<close>, a
  tool-use block or not, with a delta already seen or not.\<close>

fun protocol_step :: "protocol_state \<Rightarrow> 'j event \<Rightarrow> protocol_state option" where
  "protocol_step AwaitStart (MessageStart m) = Some (BetweenBlocks False 0)"
| "protocol_step (BetweenBlocks tool_seen n) (ContentBlockStart i b) =
     (if n \<le> i \<and> \<not> (tool_seen \<and> \<not> is_tool_use b)
      then Some (InBlock i (is_tool_use b) False (tool_seen \<or> is_tool_use b)) else None)"
| "protocol_step (InBlock i tool has_delta tool_seen) (ContentBlockDelta j d) =
     (if j = i \<and> is_json_delta d = tool then Some (InBlock i tool True tool_seen) else None)"
| "protocol_step (InBlock i tool has_delta tool_seen) (ContentBlockStop j) =
     (if j = i \<and> has_delta then Some (BetweenBlocks tool_seen (Suc i)) else None)"
| "protocol_step (BetweenBlocks tool_seen n) (MessageDelta r) =
     (if is_stop_reason r then Some AwaitStop else None)"
| "protocol_step AwaitStop MessageStop = Some Finished"
| "protocol_step s e = None"

fun protocol_run :: "protocol_state \<Rightarrow> 'j event list \<Rightarrow> protocol_state option" where
  "protocol_run s [] = Some s"
| "protocol_run s (e # es) =
     (case protocol_step s e of None \<Rightarrow> None | Some s' \<Rightarrow> protocol_run s' es)"

definition valid_stream :: "'j event list \<Rightarrow> bool" where
  "valid_stream es = (protocol_run AwaitStart es = Some Finished)"

text \<open>The fallback sequence of the specification: \<^verbatim>\<open>message_start\<close> with the stop reason
  \<^verbatim>\<open>error\<close>, \<^verbatim>\<open>message_delta\<close> with the same, \<^verbatim>\<open>message_stop\<close>.\<close>

fun is_fallback :: "'j event list \<Rightarrow> bool" where
  "is_fallback [MessageStart m, MessageDelta r, MessageStop] =
     (m_stop_reason m = Some (JString ''error'') \<and> r = Some (JString ''error''))"
| "is_fallback es = False"
section \<open>Notions used to state the properties\<close>

subsection \<open>Text of a turn and well-terminated provider streams\<close>


definition chunk_text :: "chunk \<Rightarrow> string" where
  "chunk_text c =
     (case first_choice c of
        None \<Rightarrow> []
      | Some choice \<Rightarrow> (case delta_content (choice_delta choice) of None \<Rightarrow> [] | Some t \<Rightarrow> t))"

text \<open>A chunk finishes the turn when its first choice has a finish reason.  A chunk list is
  well terminated when it has a finishing chunk and the chunks after the first finishing one
  neither finish again nor carry text.\<close>

definition finishes :: "chunk \<Rightarrow> bool" where
  "finishes c =
     (case first_choice c of None \<Rightarrow> False | Some choice \<Rightarrow> truthy_str (choice_finish_reason choice))"

fun well_terminated :: "chunk list \<Rightarrow> bool" where
  "well_terminated [] = False"
| "well_terminated (c # cs) =
     (if finishes c then list_all (\<lambda>c. \<not> finishes c \<and> chunk_text c = []) cs
      else well_terminated cs)"

text \<open>The finish reason of the first finishing chunk.\<close>

fun first_finish :: "chunk list \<Rightarrow> string option" where
  "first_finish [] = None"
| "first_finish (c # cs) =
     (if finishes c
      then (case first_choice c of None \<Rightarrow> None | Some choice \<Rightarrow> choice_finish_reason choice)
      else first_finish cs)"

text \<open>The protocol state that corresponds to the two flags of
  \<^verbatim>\<open>outputChunksAsStream\<close> before a finish reason has been seen.\<close>

definition chunk_state :: "bool \<Rightarrow> bool \<Rightarrow> protocol_state" where
  "chunk_state ms cs =
     (if \<not> ms then AwaitStart else if cs then InBlock 0 False True False else BetweenBlocks False 0)"

text \<open>The two parts of the content that \<^verbatim>\<open>transformResponse\<close> builds.\<close>

definition response_tools ::
  "'j js_runtime \<Rightarrow> completion_choice \<Rightarrow> js_error + 'j response_block list" where
  "response_tools rt choice =
     (case msg_tool_calls (cc_message choice) of
        None \<Rightarrow> Inr []
      | Some toolCalls \<Rightarrow> tool_use_blocks rt toolCalls)"

definition response_text :: "completion_choice \<Rightarrow> 'j response_block list" where
  "response_text choice =
     (if truthy_str (msg_content (cc_message choice))
      then [TextContent (the (msg_content (cc_message choice)))] else [])"

subsection \<open>The fold of a turn, stated declaratively\<close>

text \<open>
  The reconstruction as the specification words it, read off the chunks alone: the text
  deltas of all chunks concatenated; for each tool-call index the deltas that address it, in
  arrival order, with the name taken from the last delta that sets one, the argument
  fragments appended, and the identifier taken from the first delta (or made from the
  index); the finish reason of the last chunk that has one.  A delta without an index
  addresses index 0.  The array of tool calls reaches up to the largest index and has a hole
  at every index that no delta addresses.
\<close>

definition tool_deltas_of :: "chunk \<Rightarrow> tool_call_delta list" where
  "tool_deltas_of c =
     (case first_choice c of
        None \<Rightarrow> []
      | Some choice \<Rightarrow> (case delta_tool_calls (choice_delta choice) of None \<Rightarrow> [] | Some tcs \<Rightarrow> tcs))"

definition all_tool_deltas :: "chunk list \<Rightarrow> tool_call_delta list" where
  "all_tool_deltas chunks = concat (map tool_deltas_of chunks)"

definition addressed_index :: "tool_call_delta \<Rightarrow> nat" where
  "addressed_index d = (case tcd_index d of None \<Rightarrow> 0 | Some i \<Rightarrow> i)"

definition name_fragment :: "tool_call_delta \<Rightarrow> string" where
  "name_fragment d =
     (case tcd_function d of
        None \<Rightarrow> []
      | Some f \<Rightarrow> (case fn_name f of None \<Rightarrow> [] | Some n \<Rightarrow> n))"

definition argument_fragment :: "tool_call_delta \<Rightarrow> string" where
  "argument_fragment d =
     (case tcd_function d of
        None \<Rightarrow> []
      | Some f \<Rightarrow> (case fn_arguments f of None \<Rightarrow> [] | Some a \<Rightarrow> a))"

definition identifier_of :: "tool_call_delta \<Rightarrow> string" where
  "identifier_of d =
     (case tcd_id d of
        None \<Rightarrow> ''tool_'' @ string_of_nat (addressed_index d)
      | Some i \<Rightarrow> if i = [] then ''tool_'' @ string_of_nat (addressed_index d) else i)"

definition deltas_at :: "nat \<Rightarrow> chunk list \<Rightarrow> tool_call_delta list" where
  "deltas_at i chunks = filter (\<lambda>d. addressed_index d = i) (all_tool_deltas chunks)"

definition joined_text :: "chunk list \<Rightarrow> string" where
  "joined_text chunks = concat (map chunk_text chunks)"

definition joined_arguments :: "tool_call_delta list \<Rightarrow> string" where
  "joined_arguments ds = concat (map argument_fragment ds)"

definition set_name :: "tool_call_delta list \<Rightarrow> string" where
  "set_name ds =
     (case filter (\<lambda>n. n \<noteq> []) (map name_fragment ds) of [] \<Rightarrow> [] | n # ns \<Rightarrow> last (n # ns))"

definition folded_call :: "tool_call_delta list \<Rightarrow> openai_tool_call" where
  "folded_call ds =
     \<lparr>call_id = identifier_of (hd ds), call_type = ''function'',
      call_name = set_name ds, call_arguments = joined_arguments ds\<rparr>"

definition finish_of :: "chunk \<Rightarrow> string option" where
  "finish_of c = (case first_choice c of None \<Rightarrow> None | Some choice \<Rightarrow> choice_finish_reason choice)"

definition last_finish :: "chunk list \<Rightarrow> string option" where
  "last_finish chunks =
     (case filter truthy_str (map finish_of chunks) of [] \<Rightarrow> None | f # fs \<Rightarrow> last (f # fs))"

definition array_bound :: "tool_call_delta list \<Rightarrow> nat" where
  "array_bound ds = foldr (\<lambda>d n. max (Suc (addressed_index d)) n) ds 0"

definition folded_array :: "chunk list \<Rightarrow> openai_tool_call option list" where
  "folded_array chunks =
     map (\<lambda>i. if deltas_at i chunks = [] then None else Some (folded_call (deltas_at i chunks)))
       [0..<array_bound (all_tool_deltas chunks)]"

definition folded_completion :: "chunk list \<Rightarrow> chat_completion" where
  "folded_completion chunks =
     \<lparr>cmpl_model = chunk_model (hd chunks),
      cmpl_choices =
        [\<lparr>cc_message =
            \<lparr>msg_content = (if joined_text chunks \<noteq> [] then Some (joined_text chunks) else None),
             msg_tool_calls = (if folded_array chunks \<noteq> [] then Some (folded_array chunks) else None)\<rparr>,
          cc_finish_reason = last_finish chunks\<rparr>],
      cmpl_usage = Some \<lparr>prompt_tokens = Some 0, completion_tokens = Some 0\<rparr>\<rparr>"

text \<open>One tool-call object under one delta, and under the deltas of its index.\<close>

definition apply_delta :: "openai_tool_call \<Rightarrow> tool_call_delta \<Rightarrow> openai_tool_call" where
  "apply_delta existing toolCall =
     (let named = (if truthy_str (delta_name toolCall)
                   then existing\<lparr>call_name := the (delta_name toolCall)\<rparr> else existing)
      in if truthy_str (delta_arguments toolCall)
         then named\<lparr>call_arguments := call_arguments named @ the (delta_arguments toolCall)\<rparr>
         else named)"

fun fold_at :: "openai_tool_call option \<Rightarrow> tool_call_delta list \<Rightarrow> openai_tool_call option" where
  "fold_at e [] = e"
| "fold_at e (d # ds) =
     fold_at (Some (apply_delta (case e of None \<Rightarrow> new_tool_call d | Some x \<Rightarrow> x) d)) ds"

text \<open>The \<^verbatim>\<open>tool_use\<close> block of a tool call (its identifier and name, and as input the
  repaired arguments, those of \<^verbatim>\<open>{}\<close> when there are none), the canonical message of a
  turn, and the turns whose tool-call array has no hole.\<close>

definition block_of :: "'j js_runtime \<Rightarrow> openai_tool_call \<Rightarrow> 'j response_block" where
  "block_of rt toolCall =
     ToolUseContent (call_id toolCall) (call_name toolCall)
       (fixToolCallArguments rt
          (if call_arguments toolCall \<noteq> [] then call_arguments toolCall else ''{}''))"

definition folded_message :: "'j js_runtime \<Rightarrow> chunk list \<Rightarrow> 'j claude_message" where
  "folded_message rt chunks =
     \<lparr>m_model = chunk_model (hd chunks),
      m_content =
        (if joined_text chunks \<noteq> [] then [TextContent (joined_text chunks)] else [])
        @ map (\<lambda>toolCall. block_of rt (the toolCall)) (folded_array chunks),
      m_stop_reason = Some (mapFinishReason (last_finish chunks)),
      m_input_tokens = 0, m_output_tokens = 0\<rparr>"

definition gap_free :: "chunk list \<Rightarrow> bool" where
  "gap_free chunks = list_all (\<lambda>toolCall. toolCall \<noteq> None) (folded_array chunks)"

text \<open>The runtime fact behind the emitted JSON text: what \<^verbatim>\<open>JSON.stringify\<close> writes
  for a value that \<^verbatim>\<open>JSON.parse\<close> returned, and for the empty object, parses.\<close>

definition stringify_parses :: "'j js_runtime \<Rightarrow> bool" where
  "stringify_parses rt =
     ((\<forall>s v. rt_parse rt s = Some v \<longrightarrow> rt_parse rt (rt_stringify rt v) \<noteq> None)
      \<and> rt_parse rt (rt_stringify rt (rt_empty_object rt)) \<noteq> None)"

subsection \<open>Well-formed values of the JSON model\<close>

text \<open>A value is well formed when its numbers and strings are literals of the grammar;
  these are the values that \<^const>\<open>json_parse\<close> returns.  \<^const>\<open>json_stringify\<close> of such
  a value consists of the tokens \<open>toks\<close>.\<close>

definition wf_body :: "string \<Rightarrow> bool" where
  "wf_body s = (lex_string (s @ [CHR 0x22]) = Some (s, []))"

definition wf_number :: "string \<Rightarrow> bool" where
  "wf_number n = (list_all is_number_char n \<and> valid_number n)"

fun wf_json :: "json \<Rightarrow> bool" where
  "wf_json JNull = True"
| "wf_json (JBool b) = True"
| "wf_json (JNum n) = wf_number n"
| "wf_json (JStr s) = wf_body s"
| "wf_json (JArr vs) = (\<forall>v \<in> set vs. wf_json v)"
| "wf_json (JObj ms) = (\<forall>kv \<in> set ms. wf_body (fst kv) \<and> wf_json (snd kv))"

fun wf_token :: "token \<Rightarrow> bool" where
  "wf_token (TNum n) = wf_number n"
| "wf_token (TStr s) = wf_body s"
| "wf_token t = True"

fun wf_frame :: "frame \<Rightarrow> bool" where
  "wf_frame (ArrFrame acc) = (\<forall>v \<in> set acc. wf_json v)"
| "wf_frame (ObjFrame acc k) = ((\<forall>kv \<in> set acc. wf_body (fst kv) \<and> wf_json (snd kv)) \<and> wf_body k)"

definition wf_frames :: "frame list \<Rightarrow> bool" where
  "wf_frames st = (\<forall>f \<in> set st. wf_frame f)"

definition wf_tokens :: "token list \<Rightarrow> bool" where
  "wf_tokens ts = (\<forall>t \<in> set ts. wf_token t)"

fun sep_toks :: "token list list \<Rightarrow> token list" where
  "sep_toks [] = []"
| "sep_toks [x] = x"
| "sep_toks (x # y # ys) = x @ TComma # sep_toks (y # ys)"

fun toks :: "json \<Rightarrow> token list" where
  "toks JNull = [TNull]"
| "toks (JBool b) = [if b then TTrue else TFalse]"
| "toks (JNum n) = [TNum n]"
| "toks (JStr s) = [TStr s]"
| "toks (JArr vs) = TLBrack # sep_toks (map toks vs) @ [TRBrack]"
| "toks (JObj ms) =
     TLBrace # sep_toks (map (\<lambda>kv. TStr (fst kv) # TColon # toks (snd kv)) ms) @ [TRBrace]"

definition delimited :: "string \<Rightarrow> bool" where
  "delimited rest = (case rest of [] \<Rightarrow> True | c # cs \<Rightarrow> c \<in> set '',]}'')"

definition prepend :: "token list \<Rightarrow> token list option \<Rightarrow> token list option" where
  "prepend ts res = (case res of None \<Rightarrow> None | Some us \<Rightarrow> Some (ts @ us))"

subsection \<open>Sample chunks\<close>

definition text_chunk :: "string \<Rightarrow> chunk" where
  "text_chunk t =
     \<lparr>chunk_model = ''gpt-4'',
      chunk_choices = [\<lparr>choice_delta = \<lparr>delta_content = Some t, delta_tool_calls = None\<rparr>,
                        choice_finish_reason = None\<rparr>]\<rparr>"

definition finish_chunk :: "string \<Rightarrow> chunk" where
  "finish_chunk r =
     \<lparr>chunk_model = ''gpt-4'',
      chunk_choices = [\<lparr>choice_delta = \<lparr>delta_content = None, delta_tool_calls = None\<rparr>,
                        choice_finish_reason = Some r\<rparr>]\<rparr>"

definition tool_chunk :: "nat \<Rightarrow> string option \<Rightarrow> string option \<Rightarrow> string option \<Rightarrow> chunk" where
  "tool_chunk i tid name args =
     \<lparr>chunk_model = ''gpt-4'',
      chunk_choices =
        [\<lparr>choice_delta =
            \<lparr>delta_content = None,
             delta_tool_calls =
               Some [\<lparr>tcd_index = Some i, tcd_id = tid,
                      tcd_function = Some \<lparr>fn_name = name, fn_arguments = args\<rparr>\<rparr>]\<rparr>,
          choice_finish_reason = None\<rparr>]\<rparr>"

section \<open>Properties of the finish-reason mapping\<close>

lemma mapFinishReason_table:
  "mapFinishReason None = JString ''end_turn''"
  "mapFinishReason (Some []) = JString ''end_turn''"
  "mapFinishReason (Some ''stop'') = JString ''end_turn''"
  "mapFinishReason (Some ''length'') = JString ''max_tokens''"
  "mapFinishReason (Some ''tool_calls'') = JString ''tool_use''"
  "mapFinishReason (Some ''content_filter'') = JString ''end_turn''"
  by (simp_all add: mapFinishReason_def get_property_def mapping_def)

lemma mapFinishReason_unrecognized:
  assumes "r \<notin> {''stop'', ''length'', ''tool_calls'', ''content_filter''}"
    and "r \<notin> set object_prototype_keys"
  shows "mapFinishReason (Some r) = JString ''end_turn''"
  using assms by (simp add: mapFinishReason_def get_property_def mapping_def)

text \<open>
  Claim C3 (the finish-reason mapping sends every unrecognized string to
  \<^verbatim>\<open>end_turn\<close>) does not hold of the code: for the finish reason
  \<^verbatim>\<open>toString\<close> the read \<^verbatim>\<open>mapping[reason]\<close> finds the function inherited from
  \<^verbatim>\<open>Object.prototype\<close>, which is truthy, so the \<^verbatim>\<open>|| 'end_turn'\<close> default is not
  taken and the function itself is returned.
\<close>

theorem mapFinishReason_toString:
  "mapFinishReason (Some ''toString'') = PrototypeMember ''toString''
   \<and> mapFinishReason (Some ''toString'') \<noteq> JString ''end_turn''"
  by (simp add: mapFinishReason_def get_property_def mapping_def object_prototype_keys_def)

section \<open>Properties of the tool-choice transform\<close>




section \<open>Properties of the message transform\<close>

lemma transform_blocks_tool_result:
  assumes "\<forall>b \<in> set pre. \<not> is_tool_result b"
  shows "transform_blocks rt role (pre @ ToolResultBlock c tid # post) content toolCalls
         = ToolMessage (tool_result_text rt c) tid"
  using assms
proof (induction rt role pre content toolCalls rule: transform_blocks.induct)
  case (1 rt role content toolCalls)
  show ?case by simp
qed simp_all

text \<open>
  Claim C9: when the content array of a message contains a \<^verbatim>\<open>tool_result\<close> block, the
  transform returns the single message of role \<^verbatim>\<open>tool\<close> built from the first such
  block, whatever blocks stand before it and after it.  The message has the block's
  \<^verbatim>\<open>tool_use_id\<close>, and its content is the result content: the string itself when the
  result is a string, the text that \<^verbatim>\<open>JSON.stringify\<close> writes for it when it is a
  structured value, and no content when the block has none.
\<close>

theorem transformMessage_tool_result:
  assumes "\<forall>b \<in> set pre. \<not> is_tool_result b"
  shows "transformMessage rt
           \<lparr>mp_role = role, mp_content = ContentBlocks (pre @ ToolResultBlock (ResultString s) tid # post)\<rparr>
         = Some (ToolMessage (Some s) tid)
       \<and> transformMessage rt
           \<lparr>mp_role = role, mp_content = ContentBlocks (pre @ ToolResultBlock (ResultValue v) tid # post)\<rparr>
         = Some (ToolMessage (Some (rt_stringify rt v)) tid)
       \<and> transformMessage rt
           \<lparr>mp_role = role, mp_content = ContentBlocks (pre @ ToolResultBlock ResultMissing tid # post)\<rparr>
         = Some (ToolMessage None tid)"
  using transform_blocks_tool_result [OF assms]
  by (simp add: transformMessage_def)

lemma transformMessage_contains_tool_result:
  assumes "\<exists>b \<in> set items. is_tool_result b"
  shows "\<exists>c tid. ToolResultBlock c tid \<in> set items
           \<and> transformMessage rt \<lparr>mp_role = role, mp_content = ContentBlocks items\<rparr>
               = Some (ToolMessage (tool_result_text rt c) tid)"
proof -
  from assms obtain pre b post where
    split: "items = pre @ b # post" and b: "is_tool_result b"
    and pre: "\<forall>x \<in> set pre. \<not> is_tool_result x"
    by (metis split_list_first_prop)
  from b obtain c tid where "b = ToolResultBlock c tid"
    by (cases b) simp_all
  with split pre transform_blocks_tool_result [of pre rt] show ?thesis
    by (auto simp: transformMessage_def)
qed

section \<open>Properties of the key pool manager\<close>

lemma getOrCreatePool_creates:
  assumes "pools m providerId = None"
  shows "getOrCreatePool m providerId ty
         = (length (store m),
            \<lparr>pools = (pools m)(providerId \<mapsto> length (store m)),
             store = store m @ [\<lparr>pool_kind = (if ty = ''google'' then GeminiKeyPool else GenericKeyPool),
                                 pool_provider = providerId\<rparr>]\<rparr>)"
  using assms by (simp add: getOrCreatePool_def createPool_def)

lemma getOrCreatePool_registers:
  assumes "getOrCreatePool m providerId ty = (p, m')"
  shows "pools m' providerId = Some p"
  using assms
  by (auto simp: getOrCreatePool_def createPool_def Let_def split: option.splits)

text \<open>
  Claim C10: once the manager's map holds a pool for a provider id, a call of
  \<^verbatim>\<open>getOrCreatePool\<close> for that id returns that same instance and leaves the manager
  (its map and the stored pools, so also the kind of the pool) unchanged, whatever provider
  type is passed; this holds in particular after a first call has created the pool.
\<close>

theorem getOrCreatePool_cached:
  "(pools m providerId = Some p \<longrightarrow> getOrCreatePool m providerId ty = (p, m))
   \<and> (getOrCreatePool m providerId ty1 = (p1, m1) \<longrightarrow> getOrCreatePool m1 providerId ty2 = (p1, m1))"
proof -
  have cached: "getOrCreatePool m providerId ty = (p, m)" if "pools m providerId = Some p"
    for m p ty
    using that by (simp add: getOrCreatePool_def)
  have "getOrCreatePool m1 providerId ty2 = (p1, m1)"
    if "getOrCreatePool m providerId ty1 = (p1, m1)"
    using getOrCreatePool_registers [OF that] by (rule cached)
  with cached show ?thesis by blast
qed

theorem getOrCreatePool_cached_witness:
  "getOrCreatePool \<lparr>pools = Map.empty, store = []\<rparr> ''p1'' ''google''
     = (0, \<lparr>pools = [''p1'' \<mapsto> 0], store = [\<lparr>pool_kind = GeminiKeyPool, pool_provider = ''p1''\<rparr>]\<rparr>)
   \<and> getOrCreatePool \<lparr>pools = [''p1'' \<mapsto> 0], store = [\<lparr>pool_kind = GeminiKeyPool, pool_provider = ''p1''\<rparr>]\<rparr>
        ''p1'' ''openai''
     = (0, \<lparr>pools = [''p1'' \<mapsto> 0], store = [\<lparr>pool_kind = GeminiKeyPool, pool_provider = ''p1''\<rparr>]\<rparr>)"
proof -
  have first: "getOrCreatePool \<lparr>pools = Map.empty, store = []\<rparr> ''p1'' ''google''
     = (0, \<lparr>pools = [''p1'' \<mapsto> 0], store = [\<lparr>pool_kind = GeminiKeyPool, pool_provider = ''p1''\<rparr>]\<rparr>)"
    by (simp add: getOrCreatePool_def createPool_def)
  from first getOrCreatePool_cached
      [of "\<lparr>pools = Map.empty, store = []\<rparr>" "''p1''" _ _ "''google''" 0
          "\<lparr>pools = [''p1'' \<mapsto> 0], store = [\<lparr>pool_kind = GeminiKeyPool, pool_provider = ''p1''\<rparr>]\<rparr>"
          "''openai''"]
  show ?thesis
    by simp
qed

lemma getOrCreatePool_calls_cached:
  assumes "pools m providerId = Some p"
  shows "getOrCreatePool_calls m providerId tys = (replicate (length tys) p, m)"
  using assms
  by (induction tys) (simp_all add: getOrCreatePool_def)

section \<open>Properties of the JSON model\<close>

text \<open>The values \<^const>\<open>json_parse\<close> returns are well formed, and
  \<^const>\<open>json_parse\<close> reads back what \<^const>\<open>json_stringify\<close> writes for a well-formed
  value; so the model satisfies \<^const>\<open>stringify_parses\<close>.\<close>

subsection \<open>Strings and numbers\<close>

lemma scan_string_append:
  "scan_string m s = Some (b, r) \<Longrightarrow> scan_string m (s @ x) = Some (b, r @ x)"
  by (induction m s arbitrary: b r rule: scan_string.induct) (auto split: if_splits)

lemma scan_string_body:
  "scan_string m s = Some (b, r) \<Longrightarrow> scan_string m (b @ [CHR 0x22]) = Some (b, [])"
  by (induction m s arbitrary: b r rule: scan_string.induct) (auto split: if_splits)

lemma lex_string_append:
  "lex_string s = Some (b, r) \<Longrightarrow> lex_string (s @ x) = Some (b, r @ x)"
  unfolding lex_string_def by (rule scan_string_append)

lemma lex_string_body: "lex_string s = Some (b, r) \<Longrightarrow> wf_body b"
  unfolding wf_body_def lex_string_def by (rule scan_string_body)

lemma lex_string_wf_body:
  "wf_body s \<Longrightarrow> lex_string (s @ CHR 0x22 # rest) = Some (s, rest)"
  using lex_string_append [of "s @ [CHR 0x22]" s "[]" rest]
  by (simp add: wf_body_def)

lemma lex_number_wf: "lex_number s = Some (n, r) \<Longrightarrow> wf_number n"
  by (auto simp: lex_number_def wf_number_def list_all_iff split: if_splits
      dest: set_takeWhileD)

lemma lex_number_wf_number:
  assumes "wf_number n" and "delimited rest"
  shows "lex_number (n @ rest) = Some (n, rest)"
proof -
  from assms(1) have all: "\<And>x. x \<in> set n \<Longrightarrow> is_number_char x"
    by (simp add: wf_number_def list_all_iff)
  from assms(2) have stop: "takeWhile is_number_char rest = []" "dropWhile is_number_char rest = rest"
    by (auto simp: delimited_def is_number_char_def split: list.splits)
  from all stop have "takeWhile is_number_char (n @ rest) = n"
    and "dropWhile is_number_char (n @ rest) = rest"
    by (simp_all add: takeWhile_append2 dropWhile_append2)
  with assms(1) show ?thesis
    by (simp add: lex_number_def wf_number_def)
qed

lemma is_digit_zero: "is_digit CHR ''0''"
  by (simp add: is_digit_def)

lemma wf_number_head:
  assumes "wf_number n"
  obtains c cs where "n = c # cs" and "c = CHR ''-'' \<or> is_digit c"
proof -
  from assms have "valid_number n" by (simp add: wf_number_def)
  then obtain c cs where "n = c # cs" and "c = CHR ''-'' \<or> is_digit c"
    by (cases n)
      (auto simp: valid_number_def scan_number_def lex_minus_def lex_int_def lex_digits_def
        is_digit_zero split: option.splits if_splits list.splits)
  then show ?thesis by (rule that)
qed

subsection \<open>Tokens of a printed value\<close>

declare tokenize.simps(2) [simp del]

lemma prepend_prepend [simp]: "prepend ts (prepend us res) = prepend (ts @ us) res"
  by (simp add: prepend_def split: option.splits)

lemma map_option_Cons_prepend [simp]: "map_option (Cons t) res = prepend [t] res"
  by (simp add: prepend_def split: option.splits)

lemma prepend_Some [simp]: "prepend ts (Some us) = Some (ts @ us)"
  by (simp add: prepend_def)

lemma is_digit_facts:
  assumes "is_digit c"
  shows "\<not> is_json_ws c" and "punctuation c = None" and "c \<noteq> CHR 0x22"
  using assms by (auto simp: is_digit_def is_json_ws_def punctuation_def)

lemma tokenize_number:
  assumes "wf_number n" and "delimited rest"
  shows "tokenize (n @ rest) = prepend [(TNum n)] (tokenize rest)"
proof -
  from assms(1) obtain c cs where n: "n = c # cs" and c: "c = CHR ''-'' \<or> is_digit c"
    by (rule wf_number_head)
  from c have "\<not> is_json_ws c" and "punctuation c = None" and "c \<noteq> CHR 0x22"
    using is_digit_facts [of c] by (auto simp: is_json_ws_def punctuation_def)
  moreover have "lex_number (c # cs @ rest) = Some (n, rest)"
    using lex_number_wf_number [OF assms] n by simp
  ultimately show ?thesis
    using n c by (simp add: tokenize.simps)
qed

lemma tokenize_string:
  assumes "wf_body s"
  shows "tokenize (CHR 0x22 # s @ CHR 0x22 # rest) = prepend [(TStr s)] (tokenize rest)"
  using lex_string_wf_body [OF assms, of rest]
  by (simp add: tokenize.simps is_json_ws_def punctuation_def)

lemma tokenize_punctuation:
  "tokenize (CHR ''['' # rest) = prepend [TLBrack] (tokenize rest)"
  "tokenize (CHR '']'' # rest) = prepend [TRBrack] (tokenize rest)"
  "tokenize (CHR ''{'' # rest) = prepend [TLBrace] (tokenize rest)"
  "tokenize (CHR ''}'' # rest) = prepend [TRBrace] (tokenize rest)"
  "tokenize (CHR '':'' # rest) = prepend [TColon] (tokenize rest)"
  "tokenize (CHR '','' # rest) = prepend [TComma] (tokenize rest)"
  by (simp_all add: tokenize.simps is_json_ws_def punctuation_def)

lemma tokenize_literals:
  "tokenize (''null'' @ rest) = prepend [TNull] (tokenize rest)"
  "tokenize (''true'' @ rest) = prepend [TTrue] (tokenize rest)"
  "tokenize (''false'' @ rest) = prepend [TFalse] (tokenize rest)"
  by (simp_all add: tokenize.simps is_json_ws_def punctuation_def is_digit_def lex_literal_def)

lemma tokenize_separated:
  assumes items: "\<And>x rest. x \<in> set xs \<Longrightarrow> delimited rest \<Longrightarrow>
            tokenize (p x @ rest) = prepend (t x) (tokenize rest)"
    and close: "\<And>rest. tokenize (c # rest) = prepend [tc] (tokenize rest)"
    and c: "c \<in> set '']}''"
  shows "tokenize (separate '','' (map p xs) @ c # rest)
         = prepend (sep_toks (map t xs) @ [tc]) (tokenize rest)"
  using items
proof (induction xs rule: induct_list012)
  case 1
  show ?case by (simp add: close)
next
  case (2 x)
  have "delimited (c # rest)" using c by (auto simp: delimited_def)
  with 2 [of x "c # rest"] show ?case
    by (simp add: close)
next
  case (3 x y zs)
  have "delimited (CHR '','' # separate '','' (map p (y # zs)) @ c # rest)"
    by (simp add: delimited_def)
  from 3(3) [OF _ this, of x]
  have "tokenize (p x @ CHR '','' # separate '','' (map p (y # zs)) @ c # rest)
        = prepend (t x) (tokenize (CHR '','' # separate '','' (map p (y # zs)) @ c # rest))"
    by simp
  moreover have "tokenize (separate '','' (map p (y # zs)) @ c # rest)
        = prepend (sep_toks (map t (y # zs)) @ [tc]) (tokenize rest)"
    using 3(2) 3(3) by simp
  ultimately show ?case
    by (simp add: tokenize_punctuation)
qed

lemma tokenize_stringify:
  assumes "wf_json v" and "delimited rest"
  shows "tokenize (json_stringify v @ rest) = prepend (toks v) (tokenize rest)"
  using assms
proof (induction v arbitrary: rest)
  case JNull
  show ?case using tokenize_literals(1) [of rest] by (simp add:)
next
  case (JBool b)
  show ?case
    using tokenize_literals(2,3) [of rest] by (cases b) (simp_all add:)
next
  case (JNum n)
  then show ?case by (simp add: tokenize_number)
next
  case (JStr s)
  then show ?case using tokenize_string [of s rest] by simp
next
  case (JArr vs)
  have "tokenize (separate '','' (map json_stringify vs) @ CHR '']'' # rest)
        = prepend (sep_toks (map toks vs) @ [TRBrack]) (tokenize rest)"
  proof (rule tokenize_separated)
    fix x r
    assume "x \<in> set vs" and "delimited r"
    with JArr show "tokenize (json_stringify x @ r) = prepend (toks x) (tokenize r)"
      by simp
  qed (simp_all add: tokenize_punctuation)
  then show ?case
    by (simp add: tokenize_punctuation)
next
  case (JObj ms)
  let ?p = "\<lambda>kv. [CHR 0x22] @ fst kv @ [CHR 0x22] @ '':'' @ json_stringify (snd kv)"
  let ?t = "\<lambda>kv. TStr (fst kv) # TColon # toks (snd kv)"
  have "tokenize (separate '','' (map ?p ms) @ CHR ''}'' # rest)
        = prepend (sep_toks (map ?t ms) @ [TRBrace]) (tokenize rest)"
  proof (rule tokenize_separated)
    fix kv r
    assume kv: "kv \<in> set ms" and r: "delimited r"
    with JObj.prems have k: "wf_body (fst kv)" and v: "wf_json (snd kv)"
      by auto
    have "snd kv \<in> Basic_BNFs.snds kv"
      by (cases kv) simp
    from JObj.IH [OF kv this v r]
    have "tokenize (json_stringify (snd kv) @ r) = prepend (toks (snd kv)) (tokenize r)" .
    then show "tokenize (?p kv @ r) = prepend (?t kv) (tokenize r)"
      using tokenize_string [OF k, of "CHR '':'' # json_stringify (snd kv) @ r"]
      by (simp add: tokenize_punctuation)
  qed (simp_all add: tokenize_punctuation)
  then show ?case
    by (simp add: tokenize_punctuation)
qed

subsection \<open>Parsing the tokens of a value\<close>

lemma sep_toks_Cons: "sep_toks (x # xs) = x @ concat (map (Cons TComma) xs)"
  by (induction xs arbitrary: x) simp_all

lemma toks_head: "\<exists>t ts. toks v = t # ts \<and> t \<noteq> TRBrack"
  by (cases v) simp_all

lemma expect_value_open_array:
  assumes "toks v = t # us"  and "t \<noteq> TRBrack"
  shows "expect_value st (TLBrack # toks v @ ts) = expect_value (ArrFrame [] # st) (toks v @ ts)"
  using assms by (cases t) simp_all

lemma expect_value_elements:
  assumes "\<And>v st ts. v \<in> set (x # xs) \<Longrightarrow> expect_value st (toks v @ ts) = feed st v ts"
  shows "expect_value (ArrFrame acc # st)
           (toks x @ concat (map (Cons TComma) (map toks xs)) @ TRBrack # ts)
         = feed st (JArr (acc @ x # xs)) ts"
  using assms
proof (induction xs arbitrary: x acc)
  case Nil
  then show ?case by simp
next
  case (Cons y ys)
  have "expect_value (ArrFrame acc # st)
          (toks x @ TComma # toks y @ concat (map (Cons TComma) (map toks ys)) @ TRBrack # ts)
        = feed (ArrFrame acc # st) x
            (TComma # toks y @ concat (map (Cons TComma) (map toks ys)) @ TRBrack # ts)"
    using Cons.prems [of x] by simp
  also have "\<dots> = expect_value (ArrFrame (acc @ [x]) # st)
                     (toks y @ concat (map (Cons TComma) (map toks ys)) @ TRBrack # ts)"
    by simp
  also have "\<dots> = feed st (JArr ((acc @ [x]) @ y # ys)) ts"
    using Cons.prems by (intro Cons.IH) simp
  finally show ?case by simp
qed

lemma expect_value_members:
  assumes "\<And>v st ts. v \<in> snd ` set (kv # kvs) \<Longrightarrow> expect_value st (toks v @ ts) = feed st v ts"
  shows "expect_value (ObjFrame acc (fst kv) # st)
           (toks (snd kv)
            @ concat (map (Cons TComma) (map (\<lambda>kv. TStr (fst kv) # TColon # toks (snd kv)) kvs))
            @ TRBrace # ts)
         = feed st (JObj (acc @ kv # kvs)) ts"
  using assms
proof (induction kvs arbitrary: kv acc)
  case Nil
  then show ?case by (cases kv) simp
next
  case (Cons kv' kvs)
  let ?rest = "concat (map (Cons TComma) (map (\<lambda>kv. TStr (fst kv) # TColon # toks (snd kv)) kvs))
               @ TRBrace # ts"
  have "expect_value (ObjFrame acc (fst kv) # st)
          (toks (snd kv) @ TComma # TStr (fst kv') # TColon # toks (snd kv') @ ?rest)
        = feed (ObjFrame acc (fst kv) # st) (snd kv)
            (TComma # TStr (fst kv') # TColon # toks (snd kv') @ ?rest)"
    using Cons.prems [of "snd kv"] by simp
  also have "\<dots> = expect_value (ObjFrame (acc @ [kv]) (fst kv') # st) (toks (snd kv') @ ?rest)"
    by simp
  also have "\<dots> = feed st (JObj ((acc @ [kv]) @ kv' # kvs)) ts"
    using Cons.prems by (intro Cons.IH) simp
  finally show ?case by simp
qed

lemma expect_value_toks: "expect_value st (toks v @ ts) = feed st v ts"
proof (induction v arbitrary: st ts)
  case JNull
  show ?case by simp
next
  case (JBool b)
  show ?case by simp
next
  case (JNum n)
  show ?case by simp
next
  case (JStr s)
  show ?case by simp
next
  case (JArr vs)
  show ?case
  proof (cases vs)
    case Nil
    then show ?thesis by simp
  next
    case (Cons x xs)
    obtain t us where t: "toks x = t # us" "t \<noteq> TRBrack"
      using toks_head by blast
    have "expect_value st (toks (JArr vs) @ ts)
          = expect_value st (TLBrack # toks x @ concat (map (Cons TComma) (map toks xs)) @ TRBrack # ts)"
      using Cons by (simp add: sep_toks_Cons)
    also have "\<dots> = expect_value (ArrFrame [] # st)
                       (toks x @ concat (map (Cons TComma) (map toks xs)) @ TRBrack # ts)"
      by (rule expect_value_open_array [OF t])
    also have "\<dots> = feed st (JArr ([] @ x # xs)) ts"
      using JArr Cons by (intro expect_value_elements) simp
    finally show ?thesis using Cons by simp
  qed
next
  case (JObj ms)
  show ?case
  proof (cases ms)
    case Nil
    then show ?thesis by simp
  next
    case (Cons kv kvs)
    let ?t = "\<lambda>kv. TStr (fst kv) # TColon # toks (snd kv)"
    have ih: "expect_value st (toks v @ ts) = feed st v ts"
      if "v \<in> snd ` set (kv # kvs)" for v st ts
    proof -
      from that Cons have "v \<in> snd ` set ms" by simp
      then obtain p where "p \<in> set ms" and "v = snd p"
        by (rule imageE)
      from \<open>v = snd p\<close> have "v \<in> Basic_BNFs.snds p" by (cases p) simp
      with \<open>p \<in> set ms\<close> show ?thesis by (rule JObj)
    qed
    have "expect_value st (toks (JObj ms) @ ts)
          = expect_value st (TLBrace # TStr (fst kv) # TColon # toks (snd kv)
              @ concat (map (Cons TComma) (map ?t kvs)) @ TRBrace # ts)"
      using Cons by (simp add: sep_toks_Cons)
    also have "\<dots> = expect_value (ObjFrame [] (fst kv) # st)
                       (toks (snd kv) @ concat (map (Cons TComma) (map ?t kvs)) @ TRBrace # ts)"
      by simp
    also have "\<dots> = feed st (JObj ([] @ kv # kvs)) ts"
      using ih by (intro expect_value_members) simp
    finally show ?thesis using Cons by simp
  qed
qed

lemma json_parse_stringify:
  assumes "wf_json v"
  shows "json_parse (json_stringify v) = Some v"
proof -
  have "delimited []" by (simp add: delimited_def)
  from tokenize_stringify [OF assms this] have "tokenize (json_stringify v) = Some (toks v)"
    by simp
  moreover have "expect_value [] (toks v) = Some v"
    using expect_value_toks [of "[]" v "[]"] by simp
  ultimately show ?thesis by (simp add: json_parse_def)
qed

subsection \<open>Parsed values are well formed\<close>

lemma tokenize_wf:
  "tokenize s = Some ts \<Longrightarrow> \<forall>t \<in> set ts. wf_token t"
proof (induction s arbitrary: ts rule: tokenize.induct)
  case 1
  then show ?case by simp
next
  case (2 c cs)
  show ?case
  proof (cases "is_json_ws c")
    case True
    with "2.prems" "2.IH"(1) show ?thesis by (simp add: tokenize.simps)
  next
    case ws: False
    show ?thesis
    proof (cases "punctuation c")
      case (Some t)
      with ws "2.prems" obtain us where us: "tokenize cs = Some us" "ts = t # us"
        by (auto simp: tokenize.simps prepend_def split: option.splits)
      from Some have "wf_token t"
        by (auto simp: punctuation_def split: if_splits)
      with us "2.IH"(5) [OF ws Some] show ?thesis by simp
    next
      case None
      show ?thesis
      proof (cases "c = CHR 0x22")
        case True
        with ws None have "tokenize (c # cs)
            = (case lex_string cs of None \<Rightarrow> None | Some (b, r) \<Rightarrow> prepend [TStr b] (tokenize r))"
          by (simp add: tokenize.simps split: option.splits)
        with "2.prems" obtain b r us where
          us: "lex_string cs = Some (b, r)" "tokenize r = Some us" "ts = TStr b # us"
          by (auto simp: prepend_def split: option.splits)
        from "2.IH"(2) [OF ws None True us(1) refl us(2)] us lex_string_body [of cs b r]
        show ?thesis by simp
      next
        case quote: False
        show ?thesis
        proof (cases "c = CHR ''-'' \<or> is_digit c")
          case True
          with ws None quote have "tokenize (c # cs)
            = (case lex_number (c # cs) of None \<Rightarrow> None
               | Some (n, r) \<Rightarrow> prepend [TNum n] (tokenize r))"
            by (simp add: tokenize.simps split: option.splits)
          with "2.prems" obtain n r us where
            us: "lex_number (c # cs) = Some (n, r)" "tokenize r = Some us" "ts = TNum n # us"
            by (auto simp: prepend_def split: option.splits)
          from "2.IH"(3) [OF ws None quote True us(1) refl us(2)] us lex_number_wf [of "c # cs" n r]
          show ?thesis by simp
        next
          case False
          with ws None quote have "tokenize (c # cs)
            = (case lex_literal (c # cs) of None \<Rightarrow> None
               | Some (t, r) \<Rightarrow> prepend [t] (tokenize r))"
            by (simp add: tokenize.simps split: option.splits)
          with "2.prems" obtain t r us where
            us: "lex_literal (c # cs) = Some (t, r)" "tokenize r = Some us" "ts = t # us"
            by (auto simp: prepend_def split: option.splits)
          from us(1) have "wf_token t"
            by (auto simp: lex_literal_def split: if_splits)
          with "2.IH"(4) [OF ws None quote False us(1) refl us(2)] us
          show ?thesis by simp
        qed
      qed
    qed
  qed
qed

lemma wf_frames_simps [simp]:
  "wf_frames []"
  "wf_frames (f # st) = (wf_frame f \<and> wf_frames st)"
  by (simp_all add: wf_frames_def)

lemma wf_tokens_simps [simp]:
  "wf_tokens []"
  "wf_tokens (t # ts) = (wf_token t \<and> wf_tokens ts)"
  by (simp_all add: wf_tokens_def)

lemma expect_value_LBrack_other:
  assumes "ts = [] \<or> hd ts \<noteq> TRBrack"
  shows "expect_value st (TLBrack # ts) = expect_value (ArrFrame [] # st) ts"
proof (cases ts)
  case Nil
  then show ?thesis by simp
next
  case (Cons t us)
  with assms show ?thesis by (cases t) simp_all
qed

lemma expect_value_LBrace_Some:
  assumes "expect_value st (TLBrace # ts) = Some v"
  shows "(\<exists>us. ts = TRBrace # us \<and> feed st (JObj []) us = Some v)
       \<or> (\<exists>k us. ts = TStr k # TColon # us \<and> expect_value (ObjFrame [] k # st) us = Some v)"
  using assms by (simp split: list.splits token.splits)

lemma feed_obj_Some:
  assumes "feed (ObjFrame acc k # st) w ts = Some v"
  shows "(\<exists>us. ts = TRBrace # us \<and> feed st (JObj (acc @ [(k, w)])) us = Some v)
       \<or> (\<exists>k' us. ts = TComma # TStr k' # TColon # us
             \<and> expect_value (ObjFrame (acc @ [(k, w)]) k' # st) us = Some v)"
  using assms by (simp split: list.splits token.splits)

lemma feed_arr_Some:
  assumes "feed (ArrFrame acc # st) w ts = Some v"
  shows "(\<exists>us. ts = TRBrack # us \<and> feed st (JArr (acc @ [w])) us = Some v)
       \<or> (\<exists>us. ts = TComma # us \<and> expect_value (ArrFrame (acc @ [w]) # st) us = Some v)"
  using assms by (simp split: list.splits token.splits)

lemma pda_wf_length:
  "\<forall>ts st v. length ts = n \<longrightarrow> wf_frames st \<longrightarrow> wf_tokens ts \<longrightarrow>
      (expect_value st ts = Some v \<longrightarrow> wf_json v)
      \<and> (\<forall>w. wf_json w \<longrightarrow> feed st w ts = Some v \<longrightarrow> wf_json v)"
proof (induction n rule: less_induct)
  case (less n)
  have ev: "wf_json v" if "expect_value st ts = Some v" "length ts < n" "wf_frames st" "wf_tokens ts"
    for st ts v
    using less [of "length ts"] that by blast
  have fd: "wf_json v" if "feed st w ts = Some v" "length ts < n" "wf_frames st" "wf_tokens ts" "wf_json w"
    for st ts v w
    using less [of "length ts"] that by blast
  show ?case
  proof (intro allI impI conjI)
    fix ts st v w
    assume n: "length ts = n" and st: "wf_frames st" and ts: "wf_tokens ts"
    assume w: "wf_json w" and feed: "feed st w ts = Some v"
    show "wf_json v"
    proof (cases st)
      case Nil
      with feed w show ?thesis by (simp split: if_splits)
    next
      case (Cons f st')
      show ?thesis
      proof (cases f)
        case (ArrFrame acc)
        from feed_arr_Some [of acc st' w ts v] feed Cons ArrFrame
        consider us where "ts = TRBrack # us" "feed st' (JArr (acc @ [w])) us = Some v"
          | us where "ts = TComma # us" "expect_value (ArrFrame (acc @ [w]) # st') us = Some v"
          by blast
        then show ?thesis
        proof cases
          case 1
          have "wf_json (JArr (acc @ [w]))" "wf_frames st'"
            using st w Cons ArrFrame by simp_all
          then show ?thesis
            by (intro fd [OF 1(2)]) (use n ts 1(1) in simp_all)
        next
          case 2
          have "wf_frames (ArrFrame (acc @ [w]) # st')"
            using st w Cons ArrFrame by simp
          then show ?thesis
            by (intro ev [OF 2(2)]) (use n ts 2(1) in simp_all)
        qed
      next
        case (ObjFrame acc k)
        from feed_obj_Some [of acc k st' w ts v] feed Cons ObjFrame
        consider us where "ts = TRBrace # us" "feed st' (JObj (acc @ [(k, w)])) us = Some v"
          | k' us where "ts = TComma # TStr k' # TColon # us"
              "expect_value (ObjFrame (acc @ [(k, w)]) k' # st') us = Some v"
          by blast
        then show ?thesis
        proof cases
          case 1
          have "wf_json (JObj (acc @ [(k, w)]))" "wf_frames st'"
            using st w Cons ObjFrame by auto
          then show ?thesis
            by (intro fd [OF 1(2)]) (use n ts 1(1) in simp_all)
        next
          case 2
          have "wf_frames (ObjFrame (acc @ [(k, w)]) k' # st')"
            using st w ts Cons ObjFrame 2(1) by auto
          then show ?thesis
            by (intro ev [OF 2(2)]) (use n ts 2(1) in simp_all)
        qed
      qed
    qed
  next
    fix ts st v
    assume n: "length ts = n" and st: "wf_frames st" and ts: "wf_tokens ts"
    assume run: "expect_value st ts = Some v"
    show "wf_json v"
    proof (cases ts)
      case Nil
      with run show ?thesis by simp
    next
      case (Cons t ts')
      have scalar: "wf_json v" if "feed st w ts' = Some v" "wf_json w" for w
        by (rule fd [OF that(1) _ st _ that(2)]) (use ts n Cons in simp_all)
      show ?thesis
      proof (cases t)
        case TLBrace
        from expect_value_LBrace_Some [of st ts' v] run Cons TLBrace
        consider us where "ts' = TRBrace # us" "feed st (JObj []) us = Some v"
          | k us where "ts' = TStr k # TColon # us" "expect_value (ObjFrame [] k # st) us = Some v"
          by blast
        then show ?thesis
        proof cases
          case 1
          show ?thesis
            by (rule fd [OF 1(2) _ st]) (use ts n Cons 1(1) in simp_all)
        next
          case 2
          have "wf_frames (ObjFrame [] k # st)"
            using st ts Cons 2(1) by simp
          then show ?thesis
            by (intro ev [OF 2(2)]) (use ts n Cons 2(1) in simp_all)
        qed
      next
        case TLBrack
        show ?thesis
        proof (cases "ts' = [] \<or> hd ts' \<noteq> TRBrack")
          case True
          from expect_value_LBrack_other [OF True, of st] run Cons TLBrack
          have r: "expect_value (ArrFrame [] # st) ts' = Some v" by simp
          show ?thesis
            by (rule ev [OF r]) (use st ts n Cons in simp_all)
        next
          case False
          then obtain us where us: "ts' = TRBrack # us" by (cases ts') auto
          with TLBrack Cons run have r: "feed st (JArr []) us = Some v" by simp
          show ?thesis
            by (rule fd [OF r _ st]) (use ts n Cons us in simp_all)
        qed
      next
        case TTrue
        with Cons run scalar [of "JBool True"] show ?thesis by simp
      next
        case TFalse
        with Cons run scalar [of "JBool False"] show ?thesis by simp
      next
        case TNull
        with Cons run scalar [of JNull] show ?thesis by simp
      next
        case (TNum x)
        with Cons run scalar [of "JNum x"] ts show ?thesis by simp
      next
        case (TStr x)
        with Cons run scalar [of "JStr x"] ts show ?thesis by simp
      qed (use Cons run in simp_all)
    qed
  qed
qed

lemma json_parse_wf:
  assumes "json_parse s = Some v"
  shows "wf_json v"
proof -
  from assms obtain ts where ts: "tokenize s = Some ts" and run: "expect_value [] ts = Some v"
    by (auto simp: json_parse_def split: option.splits)
  from tokenize_wf [OF ts] have "wf_tokens ts" by (simp add: wf_tokens_def)
  with pda_wf_length [rule_format, of ts "length ts" "[]" v] run show ?thesis by simp
qed

lemma stringify_parses_js_rt: "stringify_parses js_rt"
proof -
  have "json_parse (json_stringify v) \<noteq> None" if "json_parse s = Some v" for s v
    using json_parse_stringify [OF json_parse_wf [OF that]] by simp
  moreover have "json_parse (json_stringify (JObj [])) \<noteq> None"
    using json_parse_stringify [of "JObj []"] by simp
  ultimately show ?thesis
    by (simp add: stringify_parses_def js_rt_def)
qed

section \<open>Properties of the JSON repair\<close>

lemma json_parse_empty: "json_parse [] = None"
  by (simp add: json_parse_def)

lemma fixSingleQuoteJson_returns: "\<exists>r. fixSingleQuoteJson rt s = Inr r"
  by (simp add: fixSingleQuoteJson_def Let_def split: option.splits)

lemma fixSingleQuoteJson_parsed:
  "rt_parse rt s \<noteq> None \<Longrightarrow> fixSingleQuoteJson rt s = Inr s"
  by (auto simp: fixSingleQuoteJson_def)

lemma fixSingleQuoteJson_not_json_shaped:
  assumes "\<not> startsWith (trim s) CHR ''{''" and "\<not> startsWith (trim s) CHR ''[''"
  shows "fixSingleQuoteJson rt s = Inr s"
  using assms by (simp add: fixSingleQuoteJson_def Let_def split: option.splits)

lemma fixSingleQuoteJson_result:
  assumes "fixSingleQuoteJson rt s = Inr r"
  shows "r = s \<or> rt_parse rt r \<noteq> None"
  using assms
  by (auto simp: fixSingleQuoteJson_def Let_def split: option.splits if_splits)

text \<open>The repair is idempotent on every input: its result is either the input itself or a
  string that parses, and a string that parses is returned as it is.\<close>

lemma fixSingleQuoteJson_idem_all:
  assumes "fixSingleQuoteJson rt s = Inr r"
  shows "fixSingleQuoteJson rt r = Inr r"
  using fixSingleQuoteJson_result [OF assms] assms fixSingleQuoteJson_parsed [of rt r]
  by auto

text \<open>
  Claim C5: \<^verbatim>\<open>safeParseJson\<close> returns what \<^verbatim>\<open>JSON.parse\<close> returns whenever the
  string parses; when it does not parse, the result is what \<^verbatim>\<open>JSON.parse\<close> returns for
  the repaired string, and the caller's default when that fails too;
  \<^verbatim>\<open>fixToolCallArguments\<close> is \<^verbatim>\<open>safeParseJson\<close> with the empty object as default.
  The hypothesis records that \<^verbatim>\<open>JSON.parse\<close> rejects the empty string.
\<close>

theorem safeParseJson_spec:
  assumes "rt_parse rt [] = None"
  shows "(rt_parse rt s = Some v \<longrightarrow> safeParseJson rt s d = v)
       \<and> (rt_parse rt s = None \<longrightarrow>
            (\<exists>fixed. fixSingleQuoteJson rt s = Inr fixed
               \<and> safeParseJson rt s d = (case rt_parse rt fixed of Some v' \<Rightarrow> v' | None \<Rightarrow> d)))
       \<and> fixToolCallArguments rt s = safeParseJson rt s (rt_empty_object rt)"
proof (intro conjI impI)
  assume "rt_parse rt s = Some v"
  with assms have "s \<noteq> []" by auto
  with \<open>rt_parse rt s = Some v\<close> show "safeParseJson rt s d = v"
    by (simp add: safeParseJson_def)
next
  assume unparsed: "rt_parse rt s = None"
  obtain fixed where fixed: "fixSingleQuoteJson rt s = Inr fixed"
    using fixSingleQuoteJson_returns by blast
  have "safeParseJson rt s d = (case rt_parse rt fixed of Some v' \<Rightarrow> v' | None \<Rightarrow> d)"
  proof (cases "s = []")
    case True
    with fixed have "fixed = []" by (simp add: fixSingleQuoteJson_def)
    with True unparsed show ?thesis by (simp add: safeParseJson_def)
  next
    case False
    with unparsed fixed show ?thesis
      by (auto simp: safeParseJson_def split: option.splits)
  qed
  with fixed show "\<exists>fixed. fixSingleQuoteJson rt s = Inr fixed
      \<and> safeParseJson rt s d = (case rt_parse rt fixed of Some v' \<Rightarrow> v' | None \<Rightarrow> d)"
    by blast
next
  show "fixToolCallArguments rt s = safeParseJson rt s (rt_empty_object rt)"
    by (simp add: fixToolCallArguments_def)
qed

theorem safeParseJson_spec_witness:
  "safeParseJson js_rt ''{\"key\": \"value\"}'' JNull = JObj [(''key'', JStr ''value'')]
   \<and> safeParseJson js_rt ''{'key': 'value'}'' JNull = JObj [(''key'', JStr ''value'')]
   \<and> safeParseJson js_rt ''hello world'' (JObj []) = JObj []"
proof -
  have empty: "rt_parse js_rt [] = None"
    by (simp add: js_rt_def json_parse_empty)
  have p1: "rt_parse js_rt ''{\"key\": \"value\"}'' = Some (JObj [(''key'', JStr ''value'')])"
    by code_simp
  have p2: "rt_parse js_rt ''{'key': 'value'}'' = None"
    by code_simp
  have f2: "fixSingleQuoteJson js_rt ''{'key': 'value'}'' = Inr ''{\"key\": \"value\"}''"
    by code_simp
  have p3: "rt_parse js_rt ''hello world'' = None"
    by code_simp
  have f3: "fixSingleQuoteJson js_rt ''hello world'' = Inr ''hello world''"
    by code_simp
  from safeParseJson_spec [OF empty, of "''{\"key\": \"value\"}''" "JObj [(''key'', JStr ''value'')]" JNull] p1
  have "safeParseJson js_rt ''{\"key\": \"value\"}'' JNull = JObj [(''key'', JStr ''value'')]"
    by blast
  moreover
  from safeParseJson_spec [OF empty, of "''{'key': 'value'}''" _ JNull] p2 f2 p1
  have "safeParseJson js_rt ''{'key': 'value'}'' JNull = JObj [(''key'', JStr ''value'')]"
    by auto
  moreover
  from safeParseJson_spec [OF empty, of "''hello world''" _ "JObj []"] p3 f3
  have "safeParseJson js_rt ''hello world'' (JObj []) = JObj []"
    by auto
  ultimately show ?thesis by blast
qed

text \<open>
  Claim C6 as stated (an input that does not start with \<^verbatim>\<open>{\<close> or \<^verbatim>\<open>[\<close> is returned
  unchanged) fails: the test is made on the trimmed input, so an input with a leading blank
  before a single-quoted object is repaired, and the trimmed, repaired text is returned.
\<close>

theorem fixSingleQuoteJson_leading_blank_counterexample:
  "\<not> startsWith '' {'a': 1}'' CHR ''{''
   \<and> \<not> startsWith '' {'a': 1}'' CHR ''[''
   \<and> fixSingleQuoteJson js_rt '' {'a': 1}'' = Inr ''{\"a\": 1}''
   \<and> fixSingleQuoteJson js_rt '' {'a': 1}'' \<noteq> Inr '' {'a': 1}''"
  by code_simp

text \<open>
  Claim C6, amended: \<^verbatim>\<open>fixSingleQuoteJson\<close> never raises; when the input with its
  surrounding whitespace trimmed does not start with \<^verbatim>\<open>{\<close> or \<^verbatim>\<open>[\<close>, the input is
  returned unchanged (so \<^verbatim>\<open>hello world\<close> is); and when neither the pattern repair nor,
  where it applies, the substitution of every single quote yields text that parses, the input
  is returned unchanged.
\<close>

theorem fixSingleQuoteJson_never_raises:
  "(\<exists>r. fixSingleQuoteJson rt s = Inr r)
   \<and> (\<not> startsWith (trim s) CHR ''{'' \<and> \<not> startsWith (trim s) CHR ''['' \<longrightarrow>
        fixSingleQuoteJson rt s = Inr s)
   \<and> fixSingleQuoteJson rt ''hello world'' = Inr ''hello world''
   \<and> (rt_parse rt (regex_repair (trim s)) = None
        \<and> (startsWith (regex_repair (trim s)) CHR ''{'' \<and> endsWith (regex_repair (trim s)) CHR ''}''
             \<longrightarrow> rt_parse rt (replace_quotes (regex_repair (trim s))) = None)
        \<longrightarrow> fixSingleQuoteJson rt s = Inr s)"
proof (intro conjI impI)
  show "\<exists>r. fixSingleQuoteJson rt s = Inr r"
    by (rule fixSingleQuoteJson_returns)
next
  assume "\<not> startsWith (trim s) CHR ''{'' \<and> \<not> startsWith (trim s) CHR ''[''"
  then show "fixSingleQuoteJson rt s = Inr s"
    by (simp add: fixSingleQuoteJson_not_json_shaped)
next
  have "trim ''hello world'' = ''hello world''"
    by code_simp
  then show "fixSingleQuoteJson rt ''hello world'' = Inr ''hello world''"
    by (intro fixSingleQuoteJson_not_json_shaped) (simp_all add: startsWith_def)
next
  assume "rt_parse rt (regex_repair (trim s)) = None
        \<and> (startsWith (regex_repair (trim s)) CHR ''{'' \<and> endsWith (regex_repair (trim s)) CHR ''}''
             \<longrightarrow> rt_parse rt (replace_quotes (regex_repair (trim s))) = None)"
  then show "fixSingleQuoteJson rt s = Inr s"
    by (auto simp: fixSingleQuoteJson_def Let_def split: option.splits)
qed

theorem fixSingleQuoteJson_never_raises_witness:
  "fixSingleQuoteJson js_rt ''not a json'' = Inr ''not a json''
   \<and> fixSingleQuoteJson js_rt ''{'a': b'}'' = Inr ''{'a': b'}''"
proof -
  have t: "\<not> startsWith (trim ''not a json'') CHR ''{'' \<and> \<not> startsWith (trim ''not a json'') CHR ''[''"
    by code_simp
  have r: "rt_parse js_rt (regex_repair (trim ''{'a': b'}'')) = None"
    by code_simp
  have a: "rt_parse js_rt (replace_quotes (regex_repair (trim ''{'a': b'}''))) = None"
    by code_simp
  from fixSingleQuoteJson_never_raises [of js_rt "''not a json''"] t
  have "fixSingleQuoteJson js_rt ''not a json'' = Inr ''not a json''"
    by blast
  moreover
  from fixSingleQuoteJson_never_raises [of js_rt "''{'a': b'}''"] r a
  have "fixSingleQuoteJson js_rt ''{'a': b'}'' = Inr ''{'a': b'}''"
    by blast
  ultimately show ?thesis by blast
qed

text \<open>
  Claim C7: wherever the repaired output parses, repairing it again returns it unchanged.
\<close>

theorem fixSingleQuoteJson_idempotent:
  assumes "fixSingleQuoteJson rt s = Inr r" and "rt_parse rt r \<noteq> None"
  shows "fixSingleQuoteJson rt r = Inr r"
  using assms(2) by (rule fixSingleQuoteJson_parsed)

theorem fixSingleQuoteJson_idempotent_witness:
  "fixSingleQuoteJson js_rt ''{'title': 'A', 'nested': {'x': 1}}''
     = Inr ''{\"title\": \"A\", \"nested\": {\"x\": 1}}''
   \<and> fixSingleQuoteJson js_rt ''{\"title\": \"A\", \"nested\": {\"x\": 1}}''
     = Inr ''{\"title\": \"A\", \"nested\": {\"x\": 1}}''"
proof -
  have f: "fixSingleQuoteJson js_rt ''{'title': 'A', 'nested': {'x': 1}}''
             = Inr ''{\"title\": \"A\", \"nested\": {\"x\": 1}}''"
    by code_simp
  have p: "rt_parse js_rt ''{\"title\": \"A\", \"nested\": {\"x\": 1}}'' \<noteq> None"
    by code_simp
  from f fixSingleQuoteJson_idempotent [OF f p] show ?thesis
    by simp
qed

subsection \<open>A witness for the message transform\<close>

text \<open>A string result between other blocks, and a structured result (a list of one text
  block) between other blocks.\<close>

theorem transformMessage_tool_result_witness:
  "transformMessage js_rt
     \<lparr>mp_role = ''user'',
      mp_content = ContentBlocks
        [TextBlock ''before'', ToolResultBlock (ResultString ''42'') ''toolu_1'',
         TextBlock ''after'', ToolResultBlock (ResultString ''43'') ''toolu_2'']\<rparr>
   = Some (ToolMessage (Some ''42'') ''toolu_1'')
   \<and> transformMessage js_rt
     \<lparr>mp_role = ''user'',
      mp_content = ContentBlocks
        [TextBlock ''before'',
         ToolResultBlock (ResultValue (JArr [JObj [(''type'', JStr ''text''), (''text'', JStr ''ok'')]]))
           ''toolu_3'',
         TextBlock ''after'']\<rparr>
   = Some (ToolMessage (Some ''[{\"type\":\"text\",\"text\":\"ok\"}]'') ''toolu_3'')
   \<and> transformMessage js_rt
     \<lparr>mp_role = ''user'',
      mp_content = ContentBlocks
        [TextBlock ''before'', ToolResultBlock ResultMissing ''toolu_4'', TextBlock ''after'']\<rparr>
   = Some (ToolMessage None ''toolu_4'')"
proof -
  have pre: "\<forall>b \<in> set [TextBlock ''before'' :: json content_block]. \<not> is_tool_result b"
    by simp
  have printed: "rt_stringify js_rt (JArr [JObj [(''type'', JStr ''text''), (''text'', JStr ''ok'')]])
                 = ''[{\"type\":\"text\",\"text\":\"ok\"}]''"
    by code_simp
  from transformMessage_tool_result [OF pre, of js_rt "''user''" "''42''" "''toolu_1''"
      "[TextBlock ''after'', ToolResultBlock (ResultString ''43'') ''toolu_2'']"]
  have a: "transformMessage js_rt
     \<lparr>mp_role = ''user'',
      mp_content = ContentBlocks
        [TextBlock ''before'', ToolResultBlock (ResultString ''42'') ''toolu_1'',
         TextBlock ''after'', ToolResultBlock (ResultString ''43'') ''toolu_2'']\<rparr>
   = Some (ToolMessage (Some ''42'') ''toolu_1'')"
    by simp
  from transformMessage_tool_result [OF pre, of js_rt "''user''" _ "''toolu_3''" "[TextBlock ''after'']"
      "JArr [JObj [(''type'', JStr ''text''), (''text'', JStr ''ok'')]]"]
  have b: "transformMessage js_rt
     \<lparr>mp_role = ''user'',
      mp_content = ContentBlocks
        [TextBlock ''before'',
         ToolResultBlock (ResultValue (JArr [JObj [(''type'', JStr ''text''), (''text'', JStr ''ok'')]]))
           ''toolu_3'',
         TextBlock ''after'']\<rparr>
   = Some (ToolMessage (Some ''[{\"type\":\"text\",\"text\":\"ok\"}]'') ''toolu_3'')"
    unfolding printed [symmetric] by simp
  from transformMessage_tool_result [OF pre, of js_rt "''user''" _ "''toolu_4''" "[TextBlock ''after'']"]
  have c: "transformMessage js_rt
     \<lparr>mp_role = ''user'',
      mp_content = ContentBlocks
        [TextBlock ''before'', ToolResultBlock ResultMissing ''toolu_4'', TextBlock ''after'']\<rparr>
   = Some (ToolMessage None ''toolu_4'')"
    by simp
  from a b c show ?thesis by simp
qed
section \<open>Properties of the streaming engine\<close>

subsection \<open>Writing to the controller\<close>

lemma enqueue_all_readable:
  assumes "can_close_or_enqueue c"
  shows "enqueue_all c es
         = (c\<lparr>ctl_read_requests := ctl_read_requests c - length es,
              ctl_fulfilled := ctl_fulfilled c @ take (ctl_read_requests c) es,
              ctl_queue := ctl_queue c @ drop (ctl_read_requests c) es\<rparr>, None)"
  using assms
proof (induction es arbitrary: c)
  case Nil
  show ?case by simp
next
  case (Cons e es)
  show ?case
  proof (cases "0 < ctl_read_requests c")
    case True
    let ?c = "c\<lparr>ctl_read_requests := ctl_read_requests c - 1, ctl_fulfilled := ctl_fulfilled c @ [e]\<rparr>"
    from Cons.prems have "can_close_or_enqueue ?c"
      by (simp add: can_close_or_enqueue_def)
    from Cons.IH [OF this] Cons.prems True show ?thesis
      by (simp add: controller_enqueue_def take_Cons' drop_Cons')
  next
    case False
    let ?c = "c\<lparr>ctl_queue := ctl_queue c @ [e]\<rparr>"
    from Cons.prems have "can_close_or_enqueue ?c"
      by (simp add: can_close_or_enqueue_def)
    from Cons.IH [OF this] Cons.prems False show ?thesis
      by (simp add: controller_enqueue_def)
  qed
qed

lemma enqueue_all_start:
  "enqueue_all (start_controller n) es
     = (\<lparr>ctl_state = Readable, ctl_close_requested = False, ctl_queue = drop n es,
         ctl_read_requests = n - length es, ctl_fulfilled = take n es\<rparr>, None)"
  using enqueue_all_readable [of "start_controller n" es]
  by (simp add: start_controller_def can_close_or_enqueue_def)

text \<open>When the body of the \<^verbatim>\<open>try\<close> has written its events, the consumer reads all of
  them and then the end of the stream.\<close>

lemma transformStreamResponse_written:
  assumes "stream_body rt up (start_controller n) = enqueue_all (start_controller n) es"
  shows "received (transformStreamResponse rt up (start_controller n)) = es
       \<and> stored_error (transformStreamResponse rt up (start_controller n)) = None"
  using assms
  by (simp add: transformStreamResponse_def enqueue_all_start controller_close_def
      can_close_or_enqueue_def received_def stored_error_def Let_def)

text \<open>When the body of the \<^verbatim>\<open>try\<close> throws before it has written, the consumer reads
  those of the three recovery events that meet a pending read request, and then the error:
  \<^verbatim>\<open>controller.error\<close> empties the queue that holds the others.\<close>

lemma transformStreamResponse_thrown:
  assumes "stream_body rt up (start_controller n) = (start_controller n, Some e)"
  shows "received (transformStreamResponse rt up (start_controller n)) = take n recovery_events
       \<and> stored_error (transformStreamResponse rt up (start_controller n)) = Some (StreamingFailed e)"
  using assms
  by (simp add: transformStreamResponse_def handleStreamError_def enqueue_all_start
      controller_error_def controller_close_def can_close_or_enqueue_def received_def
      stored_error_def Let_def)

subsection \<open>Turns without tool calls\<close>


lemma truthy_str_content:
  "truthy_str (delta_content (choice_delta ch)) \<longleftrightarrow>
     (case delta_content (choice_delta ch) of None \<Rightarrow> [] | Some t \<Rightarrow> t) \<noteq> []"
  by (cases "delta_content (choice_delta ch)") simp_all



lemma stream_no_tools:
  assumes "\<not> hasToolCalls (up_chunks up)" and "up_failure up = None"
  shows "received (transformStreamResponse rt up (start_controller n)) = chunk_events (up_chunks up)
       \<and> stored_error (transformStreamResponse rt up (start_controller n)) = None"
proof (rule transformStreamResponse_written)
  from assms
  show "stream_body rt up (start_controller n)
        = enqueue_all (start_controller n) (chunk_events (up_chunks up))"
    by (simp add: stream_body_def outputChunksAsStream_def)
qed



subsection \<open>The event protocol\<close>

lemma protocol_run_append:
  "protocol_run s (xs @ ys)
     = (case protocol_run s xs of None \<Rightarrow> None | Some s' \<Rightarrow> protocol_run s' ys)"
  by (induction xs arbitrary: s) (simp_all split: option.splits)

lemma protocol_run_Finished:
  "protocol_run Finished es = (if es = [] then Some Finished else None)"
  by (cases es) simp_all

lemma output_chunks_silent:
  "(output_chunks True cs chunks = ([] :: 'j event list))
     = list_all (\<lambda>c. \<not> finishes c \<and> chunk_text c = []) chunks"
proof (induction chunks arbitrary: cs)
  case Nil
  show ?case by simp
next
  case (Cons c chunks)
  show ?case
  proof (cases "first_choice c")
    case None
    then show ?thesis
      using Cons.IH [of cs] by (simp add: finishes_def chunk_text_def)
  next
    case (Some ch)
    then show ?thesis
      using Cons.IH [of "cs \<or> truthy_str (delta_content (choice_delta ch))"]
      by (cases "delta_content (choice_delta ch)")
        (auto simp: finishes_def chunk_text_def Let_def)
  qed
qed

lemma output_chunks_valid:
  assumes "cs \<longrightarrow> ms"
  shows "(protocol_run (chunk_state ms cs) (output_chunks ms cs chunks :: 'j event list) = Some Finished)
         = (well_terminated chunks \<and> is_stop_reason (Some (mapFinishReason (first_finish chunks))))"
  using assms
proof (induction chunks arbitrary: ms cs)
  case Nil
  then show ?case by (simp add: chunk_state_def)
next
  case (Cons c chunks)
  show ?case
  proof (cases "first_choice c")
    case None
    then show ?thesis
      using Cons.IH [of cs True] Cons.prems
      by (auto simp: finishes_def chunk_state_def)
  next
    case (Some ch)
    let ?started = "cs \<or> truthy_str (delta_content (choice_delta ch))"
    show ?thesis
    proof (cases "truthy_str (choice_finish_reason ch)")
      case True
      have "protocol_run (chunk_state ms cs) (output_chunks ms cs (c # chunks) :: 'j event list)
            = (if is_stop_reason (Some (mapFinishReason (choice_finish_reason ch)))
               then protocol_run Finished (output_chunks True ?started chunks :: 'j event list)
               else None)"
        using Some True Cons.prems
        by (auto simp: chunk_state_def Let_def protocol_run_append)
      then show ?thesis
        using Some True output_chunks_silent [of ?started chunks, where ?'j = 'j]
        by (auto simp: protocol_run_Finished finishes_def)
    next
      case False
      have "protocol_run (chunk_state ms cs) (output_chunks ms cs (c # chunks) :: 'j event list)
            = protocol_run (chunk_state True ?started) (output_chunks True ?started chunks :: 'j event list)"
        using Some False Cons.prems
        by (auto simp: chunk_state_def Let_def protocol_run_append)
      then show ?thesis
        using Some False Cons.IH [of ?started True]
        by (simp add: finishes_def)
    qed
  qed
qed

text \<open>The events of the path without tool calls form a canonical sequence exactly when the
  chunks are well terminated and the finish reason is mapped to a stop reason.\<close>

lemma chunk_events_valid:
  "valid_stream (chunk_events chunks :: 'j event list)
     = (well_terminated chunks \<and> is_stop_reason (Some (mapFinishReason (first_finish chunks))))"
  using output_chunks_valid [of False False chunks, where ?'j = 'j]
  by (simp add: valid_stream_def chunk_events_def chunk_state_def)

lemma recovery_events_valid:
  "valid_stream (recovery_events :: 'j event list) \<and> is_fallback (recovery_events :: 'j event list)"
  by (simp add: valid_stream_def recovery_events_def)

text \<open>A part of the recovery events is a canonical sequence only when it is all of them.\<close>

lemma take_recovery_events_valid:
  "valid_stream (take n recovery_events :: 'j event list) = (3 \<le> n)"
proof -
  consider "n = 0" | "n = 1" | "n = 2" | "3 \<le> n" by linarith
  then show ?thesis
  proof cases
    case 4
    then have "take n (recovery_events :: 'j event list) = recovery_events"
      by (simp add: recovery_events_def)
    with 4 show ?thesis
      using recovery_events_valid [where ?'j = 'j] by simp
  qed (simp_all add: valid_stream_def recovery_events_def numeral_2_eq_2)
qed

lemma tool_use_blocks_kind:
  "tool_use_blocks rt toolCalls = Inr blocks \<Longrightarrow> list_all is_tool_use blocks"
  by (induction rt toolCalls arbitrary: blocks rule: tool_use_blocks.induct)
    (auto split: sum.splits)

lemma output_blocks_tools_run:
  assumes "list_all is_tool_use blocks"
  shows "protocol_run (BetweenBlocks ts n) (output_blocks rt n blocks @ es)
         = protocol_run (BetweenBlocks (ts \<or> blocks \<noteq> []) (n + length blocks)) es"
  using assms
proof (induction blocks arbitrary: ts n)
  case Nil
  show ?case by simp
next
  case (Cons b blocks)
  then obtain tid name input where b: "b = ToolUseContent tid name input"
    by (cases b) simp_all
  from Cons.prems have "list_all is_tool_use blocks" by simp
  from Cons.IH [OF this, of "True" "Suc n"] b show ?case
    by simp
qed

lemma transformResponse_Inr:
  assumes "transformResponse rt response = Inr m"
  obtains choice choices blocks where
    "cmpl_choices response = choice # choices"
    and "response_tools rt choice = Inr blocks"
    and "m_content m = response_text choice @ blocks"
    and "m_stop_reason m = Some (mapFinishReason (cc_finish_reason choice))"
proof (cases "cmpl_choices response")
  case Nil
  with assms show ?thesis by (simp add: transformResponse_def)
next
  case (Cons choice choices)
  show ?thesis
  proof (cases "response_tools rt choice")
    case (Inl e)
    with Cons assms show ?thesis
      by (simp add: transformResponse_def response_tools_def Let_def)
  next
    case (Inr blocks)
    with Cons assms have "m_content m = response_text choice @ blocks"
      and "m_stop_reason m = Some (mapFinishReason (cc_finish_reason choice))"
      by (auto simp: transformResponse_def response_tools_def response_text_def Let_def)
    with Cons Inr that show ?thesis by blast
  qed
qed

lemma transformResponse_content:
  assumes "transformResponse rt response = Inr m"
  shows "\<exists>text blocks. m_content m = text @ blocks
           \<and> (text = [] \<or> (\<exists>t. text = [TextContent t]))
           \<and> list_all is_tool_use blocks"
proof -
  from assms obtain choice choices blocks where
    tools: "response_tools rt choice = Inr blocks"
    and content: "m_content m = response_text choice @ blocks"
    by (rule transformResponse_Inr)
  from tools have "list_all is_tool_use blocks"
    by (auto simp: response_tools_def split: option.splits dest: tool_use_blocks_kind)
  moreover have "response_text choice = [] \<or> (\<exists>t. response_text choice = [TextContent t])"
    by (simp add: response_text_def)
  ultimately show ?thesis using content by blast
qed

lemma message_events_valid:
  assumes "m_content m = text @ blocks"
    and "text = [] \<or> (\<exists>t. text = [TextContent t])"
    and "list_all is_tool_use blocks"
    and "is_stop_reason (m_stop_reason m)"
  shows "valid_stream (message_events rt m)"
proof -
  have tail: "protocol_run (BetweenBlocks ts n)
                (output_blocks rt n blocks @ [MessageDelta (m_stop_reason m), MessageStop])
              = Some Finished" for ts n
    using output_blocks_tools_run [OF assms(3)] assms(4) by simp
  from assms(2) show ?thesis
  proof
    assume "text = []"
    with assms(1) tail [of False 0] show ?thesis
      by (simp add: valid_stream_def message_events_def)
  next
    assume "\<exists>t. text = [TextContent t]"
    then obtain t where "text = [TextContent t]" ..
    with assms(1) tail [of False 1] show ?thesis
      by (simp add: valid_stream_def message_events_def)
  qed
qed

subsection \<open>Failure of the provider stream\<close>

lemma stream_upstream_failure:
  assumes "up_failure up = Some msg"
  shows "received (transformStreamResponse rt up (start_controller n)) = take n recovery_events
       \<and> stored_error (transformStreamResponse rt up (start_controller n))
           = Some (StreamingFailed (UpstreamFailure msg))"
proof (rule transformStreamResponse_thrown)
  from assms
  show "stream_body rt up (start_controller n) = (start_controller n, Some (UpstreamFailure msg))"
    by (simp add: stream_body_def)
qed

lemma stream_no_tools_valid_iff:
  assumes "\<not> hasToolCalls (up_chunks up)" and "up_failure up = None"
  shows "valid_stream (received (transformStreamResponse rt up (start_controller n)))
         = (well_terminated (up_chunks up)
            \<and> is_stop_reason (Some (mapFinishReason (first_finish (up_chunks up)))))"
  using stream_no_tools [OF assms, of rt n] by (simp add: chunk_events_valid)

lemma stream_unterminated:
  assumes "\<not> hasToolCalls (up_chunks up)" and "up_failure up = None"
    and "\<not> well_terminated (up_chunks up)"
  shows "\<not> valid_stream (received (transformStreamResponse rt up (start_controller n)))
       \<and> stored_error (transformStreamResponse rt up (start_controller n)) = None"
  using stream_no_tools_valid_iff [OF assms(1,2), of rt n] stream_no_tools [OF assms(1,2), of rt n]
    assms(3)
  by simp

lemma stream_failure_cut:
  assumes "up_failure up = Some msg" and "n < 3"
  shows "\<not> valid_stream (received (transformStreamResponse rt up (start_controller n)))"
  using stream_upstream_failure [OF assms(1), of rt n] assms(2)
  by (simp add: take_recovery_events_valid)

text \<open>
  Claim C2 (every event sequence the engine emits is a canonical sequence closed by
  \<^verbatim>\<open>message_delta\<close> and \<^verbatim>\<open>message_stop\<close>, and on an internal failure the consumer
  gets the fallback sequence before the failure) does not hold of the code, in two places.
  On the path without tool calls the block and the message are closed only where a chunk has
  a finish reason: for a provider stream that ends after a text chunk the consumer reads a
  sequence that stops after the text delta, and the stream ends without an error.  On a
  failure the three recovery events are enqueued and \<^verbatim>\<open>controller.error\<close> is called
  right after them, which empties the queue: a consumer with one read request pending reads
  \<^verbatim>\<open>message_start\<close> and then the error.
\<close>

theorem stream_protocol_violated:
  "received (transformStreamResponse js_rt
      \<lparr>up_chunks = [text_chunk ''Hi''], up_failure = None\<rparr> (start_controller 1))
     = [MessageStart \<lparr>m_model = ''gpt-4'', m_content = [], m_stop_reason = None,
                      m_input_tokens = 0, m_output_tokens = 0\<rparr>,
        ContentBlockStart 0 (TextContent []),
        ContentBlockDelta 0 (TextDelta ''Hi'')]
   \<and> stored_error (transformStreamResponse js_rt
        \<lparr>up_chunks = [text_chunk ''Hi''], up_failure = None\<rparr> (start_controller 1)) = None
   \<and> \<not> valid_stream (received (transformStreamResponse js_rt
        \<lparr>up_chunks = [text_chunk ''Hi''], up_failure = None\<rparr> (start_controller 1)))
   \<and> received (transformStreamResponse js_rt
        \<lparr>up_chunks = [text_chunk ''Hi''], up_failure = Some ''connection reset''\<rparr>
        (start_controller 1))
     = [MessageStart \<lparr>m_model = ''unknown'', m_content = [],
                      m_stop_reason = Some (JString ''error''),
                      m_input_tokens = 0, m_output_tokens = 0\<rparr>]
   \<and> stored_error (transformStreamResponse js_rt
        \<lparr>up_chunks = [text_chunk ''Hi''], up_failure = Some ''connection reset''\<rparr>
        (start_controller 1))
     = Some (StreamingFailed (UpstreamFailure ''connection reset''))
   \<and> \<not> valid_stream (received (transformStreamResponse js_rt
        \<lparr>up_chunks = [text_chunk ''Hi''], up_failure = Some ''connection reset''\<rparr>
        (start_controller 1)))
   \<and> \<not> is_fallback (received (transformStreamResponse js_rt
        \<lparr>up_chunks = [text_chunk ''Hi''], up_failure = Some ''connection reset''\<rparr>
        (start_controller 1)))"
  by code_simp

text \<open>The path with tool calls closes the message also when no chunk has a finish reason;
  the stop reason is then the default of the finish-reason mapping.\<close>

lemma tool_path_closes_example:
  "received (transformStreamResponse js_rt
      \<lparr>up_chunks = [tool_chunk 0 (Some ''call_1'') (Some ''get_weather'') (Some ''{}'')],
       up_failure = None\<rparr> (start_controller 1))
     = [MessageStart
          \<lparr>m_model = ''gpt-4'',
           m_content = [ToolUseContent ''call_1'' ''get_weather'' (JObj [])],
           m_stop_reason = Some (JString ''end_turn''), m_input_tokens = 0, m_output_tokens = 0\<rparr>,
        ContentBlockStart 0 (ToolUseContent ''call_1'' ''get_weather'' (JObj [])),
        ContentBlockDelta 0 (InputJsonDelta ''{}''),
        ContentBlockStop 0,
        MessageDelta (Some (JString ''end_turn'')),
        MessageStop]
   \<and> valid_stream (received (transformStreamResponse js_rt
      \<lparr>up_chunks = [tool_chunk 0 (Some ''call_1'') (Some ''get_weather'') (Some ''{}'')],
       up_failure = None\<rparr> (start_controller 1)))"
  by code_simp
section \<open>Properties of turns with tool calls\<close>

subsection \<open>The declarative fold in terms of the accessors of the code\<close>

lemma delta_index_addressed: "delta_index d = addressed_index d"
  by (simp add: delta_index_def addressed_index_def)

lemma argument_fragment_code:
  "argument_fragment d = (case delta_arguments d of None \<Rightarrow> [] | Some a \<Rightarrow> a)"
  by (simp add: argument_fragment_def delta_arguments_def split: option.splits)

lemma name_fragment_code:
  "name_fragment d = (case delta_name d of None \<Rightarrow> [] | Some n \<Rightarrow> n)"
  by (simp add: name_fragment_def delta_name_def split: option.splits)

lemma identifier_of_code: "identifier_of d = call_id (new_tool_call d)"
  by (simp add: identifier_of_def new_tool_call_def delta_index_addressed split: option.splits)

lemma deltas_at_code:
  "deltas_at i chunks = filter (\<lambda>d. delta_index d = i) (all_tool_deltas chunks)"
  by (simp add: deltas_at_def delta_index_addressed)

lemma array_bound_code:
  "array_bound ds = foldr (\<lambda>d n. max (Suc (delta_index d)) n) ds 0"
  by (simp add: array_bound_def delta_index_addressed)

lemma joined_arguments_code:
  "joined_arguments ds
     = concat (map (\<lambda>d. case delta_arguments d of None \<Rightarrow> [] | Some a \<Rightarrow> a) ds)"
  by (induction ds) (simp_all add: joined_arguments_def argument_fragment_code)

lemma set_names_code:
  "filter (\<lambda>n. n \<noteq> []) (map name_fragment ds) = map the (filter truthy_str (map delta_name ds))"
proof (induction ds)
  case Nil
  show ?case by simp
next
  case (Cons d ds)
  then show ?case
    by (cases "delta_name d") (simp_all add: name_fragment_code)
qed

lemma set_name_code:
  "set_name ds
     = (case filter truthy_str (map delta_name ds) of [] \<Rightarrow> [] | n # ns \<Rightarrow> the (last (n # ns)))"
proof (cases "filter truthy_str (map delta_name ds)")
  case Nil
  then show ?thesis by (simp add: set_name_def set_names_code)
next
  case (Cons n ns)
  then have "last (map the (n # ns)) = the (last (n # ns))"
    by (simp only: last_map [of "n # ns" the] list.distinct simp_thms)
  with Cons show ?thesis
    by (simp add: set_name_def set_names_code)
qed

lemma folded_call_code:
  "folded_call ds
     = \<lparr>call_id = call_id (new_tool_call (hd ds)), call_type = ''function'',
        call_name = set_name ds, call_arguments = joined_arguments ds\<rparr>"
  by (simp add: folded_call_def identifier_of_code)

subsection \<open>One tool-call object under a sequence of deltas\<close>

lemma map_of_merge_tool_call:
  "map_of (merge_tool_call m d) j
     = (if j = delta_index d
        then Some (apply_delta (case map_of m j of None \<Rightarrow> new_tool_call d | Some x \<Rightarrow> x) d)
        else map_of m j)"
  by (cases "map_of m (delta_index d)")
    (auto simp: merge_tool_call_def apply_delta_def Let_def update_conv' map_add_def
      split: option.splits)

lemma distinct_merge_tool_call:
  assumes "distinct (map fst m)"
  shows "distinct (map fst (merge_tool_call m d))"
proof -
  have "distinct (map fst (m @ [(delta_index d, new_tool_call d)]))"
    if "map_of m (delta_index d) = None"
    using that assms by (auto simp: map_of_eq_None_iff)
  with assms show ?thesis
    by (auto simp: merge_tool_call_def Let_def intro!: distinct_update)
qed

lemma map_of_foldl_merge:
  "map_of (foldl merge_tool_call m ds) j
     = fold_at (map_of m j) (filter (\<lambda>d. delta_index d = j) ds)"
  by (induction ds arbitrary: m) (simp_all add: map_of_merge_tool_call)

lemma distinct_foldl_merge:
  "distinct (map fst m) \<Longrightarrow> distinct (map fst (foldl merge_tool_call m ds))"
  by (induction ds arbitrary: m) (simp_all add: distinct_merge_tool_call)

lemma fst_set_merge_tool_call:
  "fst ` set (merge_tool_call m d) = insert (delta_index d) (fst ` set m)"
proof -
  have "dom (map_of (merge_tool_call m d)) = insert (delta_index d) (dom (map_of m))"
    by (auto simp: map_of_merge_tool_call dom_def)
  then show ?thesis
    by (simp add: dom_map_of_conv_image_fst)
qed

lemma fst_set_foldl_merge:
  "fst ` set (foldl merge_tool_call m ds) = fst ` set m \<union> delta_index ` set ds"
  by (induction ds arbitrary: m) (auto simp: fst_set_merge_tool_call)

lemma fold_at_Some:
  "fold_at (Some e) ds
     = Some (e\<lparr>call_name := (case filter truthy_str (map delta_name ds) of
                                [] \<Rightarrow> call_name e | n # ns \<Rightarrow> the (last (n # ns))),
              call_arguments := call_arguments e @ joined_arguments ds\<rparr>)"
proof (induction ds arbitrary: e)
  case Nil
  show ?case by (simp add: joined_arguments_code)
next
  case (Cons d ds)
  have args: "call_arguments (apply_delta e d)
              = call_arguments e @ (case delta_arguments d of None \<Rightarrow> [] | Some a \<Rightarrow> a)"
    by (cases "delta_arguments d") (simp_all add: apply_delta_def Let_def)
  have name: "call_name (apply_delta e d)
              = (if truthy_str (delta_name d) then the (delta_name d) else call_name e)"
    by (simp add: apply_delta_def Let_def)
  have rest: "call_id (apply_delta e d) = call_id e" "call_type (apply_delta e d) = call_type e"
    by (simp_all add: apply_delta_def Let_def)
  show ?case
    using args name rest
    by (cases "filter truthy_str (map delta_name ds)")
      (simp_all add: Cons.IH joined_arguments_code)
qed

lemma fold_at_None:
  assumes "ds \<noteq> []"
  shows "fold_at None ds = Some (folded_call ds)"
proof -
  from assms obtain d ds' where ds: "ds = d # ds'" by (cases ds) auto
  have "fold_at None (d # ds') = fold_at (Some (new_tool_call d)) (d # ds')"
    by simp
  also have "\<dots> = Some (folded_call (d # ds'))"
    unfolding fold_at_Some
    by (simp add: folded_call_code set_name_code new_tool_call_def split: list.splits)
  finally show ?thesis using ds by simp
qed

lemma last_finish_Cons:
  "last_finish (c # cs)
     = (case last_finish cs of
          Some f \<Rightarrow> Some f
        | None \<Rightarrow> if truthy_str (finish_of c) then finish_of c else None)"
proof (cases "filter truthy_str (map finish_of cs)")
  case Nil
  then show ?thesis by (simp add: last_finish_def)
next
  case (Cons f fs)
  then have "last (f # fs) \<in> set (filter truthy_str (map finish_of cs))"
    by (metis last_in_set list.distinct(1))
  then have "truthy_str (last (f # fs))" by simp
  then obtain x where "last (f # fs) = Some x" by (cases "last (f # fs)") simp_all
  with Cons show ?thesis by (simp add: last_finish_def)
qed

lemma foldl_reconstruct_step:
  "foldl reconstruct_step acc chunks
     = \<lparr>rc_content = rc_content acc @ joined_text chunks,
        rc_tool_calls = foldl merge_tool_call (rc_tool_calls acc) (all_tool_deltas chunks),
        rc_finish_reason = (case last_finish chunks of None \<Rightarrow> rc_finish_reason acc | Some f \<Rightarrow> Some f)\<rparr>"
proof (induction chunks arbitrary: acc)
  case Nil
  show ?case by (simp add: joined_text_def all_tool_deltas_def last_finish_def)
next
  case (Cons c chunks)
  have step: "reconstruct_step acc c
      = \<lparr>rc_content = rc_content acc @ chunk_text c,
         rc_tool_calls = foldl merge_tool_call (rc_tool_calls acc) (tool_deltas_of c),
         rc_finish_reason = (if truthy_str (finish_of c) then finish_of c else rc_finish_reason acc)\<rparr>"
  proof (cases "first_choice c")
    case None
    then show ?thesis
      by (simp add: reconstruct_step_def chunk_text_def tool_deltas_of_def finish_of_def)
  next
    case (Some ch)
    then show ?thesis
      by (cases "delta_content (choice_delta ch)"; cases "delta_tool_calls (choice_delta ch)")
        (simp_all add: reconstruct_step_def chunk_text_def tool_deltas_of_def finish_of_def Let_def)
  qed
  show ?case
    by (simp add: Cons.IH step joined_text_def all_tool_deltas_def last_finish_Cons
        split: option.splits)
qed

subsection \<open>The array built from the map\<close>

lemma length_array_assign: "length (array_assign arr i v) = max (length arr) (Suc i)"
  by (auto simp: array_assign_def)

lemma nth_array_assign:
  assumes "j < max (length arr) (Suc i)"
  shows "array_assign arr i v ! j
         = (if j = i then Some v else if j < length arr then arr ! j else None)"
  using assms
  by (auto simp: array_assign_def nth_append nth_Cons' )

lemma Max_insert_zero:
  "finite S \<Longrightarrow> Max (insert 0 (insert (a :: nat) S)) = max a (Max (insert 0 S))"
  by (metis Max_insert finite.insertI insert_commute insert_not_empty)

lemma length_foldl_assign:
  "length (foldl (\<lambda>arr (i, v). array_assign arr i v) arr m)
     = max (length arr) (Max (insert 0 (Suc ` fst ` set m)))"
proof (induction m arbitrary: arr)
  case Nil
  show ?case by simp
next
  case (Cons p m)
  obtain i v where p: "p = (i, v)" by (cases p)
  have "Max (insert 0 (Suc ` fst ` set (p # m)))
        = max (Suc i) (Max (insert 0 (Suc ` fst ` set m)))"
    using p Max_insert_zero [of "Suc ` fst ` set m" "Suc i"] by simp
  then show ?case
    using p by (simp add: Cons.IH length_array_assign max.assoc del: Max_insert)
qed

lemma nth_foldl_assign:
  assumes "distinct (map fst m)"
    and "j < length (foldl (\<lambda>arr (i, v). array_assign arr i v) arr m)"
  shows "foldl (\<lambda>arr (i, v). array_assign arr i v) arr m ! j
         = (case map_of m j of
              Some v \<Rightarrow> Some v
            | None \<Rightarrow> if j < length arr then arr ! j else None)"
  using assms
proof (induction m arbitrary: arr)
  case Nil
  then show ?case by simp
next
  case (Cons p m)
  obtain i v where p: "p = (i, v)" by (cases p)
  from Cons.prems p have dist: "distinct (map fst m)" and fresh: "map_of m i = None"
    by (auto simp: map_of_eq_None_iff)
  from Cons.prems(2) p
  have len: "j < length (foldl (\<lambda>arr (i, v). array_assign arr i v) (array_assign arr i v) m)"
    by simp
  show ?case
  proof (cases "map_of m j")
    case (Some w)
    with fresh have "j \<noteq> i" by auto
    with Some Cons.IH [OF dist len] p show ?thesis by simp
  next
    case None
    show ?thesis
    proof (cases "j < max (length arr) (Suc i)")
      case True
      with None Cons.IH [OF dist len] p nth_array_assign [OF True, of v] show ?thesis
        by (auto simp: length_array_assign)
    next
      case False
      with None Cons.IH [OF dist len] p show ?thesis
        by (auto simp: length_array_assign)
    qed
  qed
qed

lemma array_bound_Max: "array_bound ds = Max (insert 0 (Suc ` delta_index ` set ds))"
proof (induction ds)
  case Nil
  show ?case by (simp add: array_bound_code)
next
  case (Cons d ds)
  have "Max (insert 0 (Suc ` delta_index ` set (d # ds)))
        = max (Suc (delta_index d)) (Max (insert 0 (Suc ` delta_index ` set ds)))"
    using Max_insert_zero [of "Suc ` delta_index ` set ds" "Suc (delta_index d)"] by simp
  with Cons show ?case by (simp add: array_bound_code del: Max_insert)
qed

lemma to_array_foldl_merge:
  "to_array (foldl merge_tool_call [] ds)
     = map (\<lambda>i. if filter (\<lambda>d. delta_index d = i) ds = [] then None
                 else Some (folded_call (filter (\<lambda>d. delta_index d = i) ds)))
         [0..<array_bound ds]"
proof (rule nth_equalityI)
  have keys: "fst ` set (foldl merge_tool_call [] ds) = delta_index ` set ds"
    by (simp add: fst_set_foldl_merge)
  show len: "length (to_array (foldl merge_tool_call [] ds))
        = length (map (\<lambda>i. if filter (\<lambda>d. delta_index d = i) ds = [] then None
                 else Some (folded_call (filter (\<lambda>d. delta_index d = i) ds)))
         [0..<array_bound ds])"
    by (simp add: to_array_def length_foldl_assign keys array_bound_Max)
  fix j
  assume j: "j < length (to_array (foldl merge_tool_call [] ds))"
  then have "to_array (foldl merge_tool_call [] ds) ! j
             = (case map_of (foldl merge_tool_call [] ds) j of Some v \<Rightarrow> Some v | None \<Rightarrow> None)"
    unfolding to_array_def
    by (subst nth_foldl_assign) (simp_all add: distinct_foldl_merge)
  also have "\<dots> = fold_at None (filter (\<lambda>d. delta_index d = j) ds)"
    by (simp add: map_of_foldl_merge split: option.splits)
  also have "\<dots> = (if filter (\<lambda>d. delta_index d = j) ds = [] then None
                 else Some (folded_call (filter (\<lambda>d. delta_index d = j) ds)))"
    by (simp add: fold_at_None)
  finally show "to_array (foldl merge_tool_call [] ds) ! j
        = map (\<lambda>i. if filter (\<lambda>d. delta_index d = i) ds = [] then None
                 else Some (folded_call (filter (\<lambda>d. delta_index d = i) ds)))
         [0..<array_bound ds] ! j"
    using j len by simp
qed

lemma reconstruct_folded:
  assumes "chunks \<noteq> []"
  shows "reconstructCompletionFromChunks chunks = Inr (folded_completion chunks)"
proof -
  from assms obtain c cs where chunks: "chunks = c # cs" by (cases chunks) auto
  have "to_array (foldl merge_tool_call [] (all_tool_deltas chunks)) = folded_array chunks"
    by (simp add: to_array_foldl_merge folded_array_def deltas_at_code)
  then show ?thesis
    unfolding reconstructCompletionFromChunks_def folded_completion_def
    using chunks
    by (simp add: foldl_reconstruct_step Let_def del: foldl_Cons split: option.splits)
qed

subsection \<open>The emitted tool-use blocks\<close>

lemma tool_use_blocks_eq:
  "tool_use_blocks rt arr
     = (if list_all (\<lambda>toolCall. toolCall \<noteq> None) arr
        then Inr (map (\<lambda>toolCall. block_of rt (the toolCall)) arr) else Inl TypeError)"
  by (induction rt arr rule: tool_use_blocks.induct) (simp_all add: block_of_def)

lemma hasToolCalls_nonempty: "hasToolCalls chunks \<Longrightarrow> chunks \<noteq> []"
  by (auto simp: hasToolCalls_def)

lemma transformResponse_folded:
  assumes "chunks \<noteq> []"
  shows "transformResponse rt (folded_completion chunks)
         = (if gap_free chunks then Inr (folded_message rt chunks) else Inl TypeError)"
  by (simp add: transformResponse_def folded_completion_def folded_message_def gap_free_def
      tool_use_blocks_eq Let_def)

lemma stream_tools:
  assumes "hasToolCalls (up_chunks up)" and "up_failure up = None"
  shows "received (transformStreamResponse rt up (start_controller n))
           = (if gap_free (up_chunks up)
              then message_events rt (folded_message rt (up_chunks up))
              else take n recovery_events)
       \<and> stored_error (transformStreamResponse rt up (start_controller n))
           = (if gap_free (up_chunks up) then None else Some (StreamingFailed TypeError))"
proof (cases "gap_free (up_chunks up)")
  case True
  with assms hasToolCalls_nonempty [OF assms(1)]
  have "stream_body rt up (start_controller n)
        = enqueue_all (start_controller n) (message_events rt (folded_message rt (up_chunks up)))"
    by (simp add: stream_body_def reconstruct_folded transformResponse_folded
        outputClaudeMessageAsStream_def)
  from transformStreamResponse_written [OF this] True show ?thesis
    by simp
next
  case False
  with assms hasToolCalls_nonempty [OF assms(1)]
  have "stream_body rt up (start_controller n) = (start_controller n, Some TypeError)"
    by (simp add: stream_body_def reconstruct_folded transformResponse_folded)
  from transformStreamResponse_thrown [OF this] False show ?thesis
    by simp
qed

lemma start_in_output_blocks:
  "ContentBlockStart k b \<in> set (output_blocks rt n blocks)
     \<longleftrightarrow> n \<le> k \<and> k < n + length blocks \<and> blocks ! (k - n) = b"
proof (induction blocks arbitrary: n)
  case Nil
  show ?case by simp
next
  case (Cons x blocks)
  have "n \<le> k \<and> k < n + length (x # blocks) \<and> (x # blocks) ! (k - n) = b
        \<longleftrightarrow> (k = n \<and> x = b) \<or> (Suc n \<le> k \<and> k < Suc n + length blocks \<and> blocks ! (k - Suc n) = b)"
    by (cases "k = n") (auto simp: nth_Cons' Suc_diff_le)
  with Cons.IH [of "Suc n"] show ?case
    by (cases x) auto
qed

lemma delta_in_output_blocks:
  assumes "n \<le> k" and "k < n + length blocks"
    and "blocks ! (k - n) = ToolUseContent tid name input"
  shows "ContentBlockDelta k
           (InputJsonDelta (rt_stringify rt (if rt_truthy rt input then input else rt_empty_object rt)))
         \<in> set (output_blocks rt n blocks)"
  using assms
proof (induction blocks arbitrary: n)
  case Nil
  then show ?case by simp
next
  case (Cons x blocks)
  show ?case
  proof (cases "k = n")
    case True
    with Cons.prems show ?thesis by simp
  next
    case False
    with Cons.prems have "Suc n \<le> k" "k < Suc n + length blocks"
      "blocks ! (k - Suc n) = ToolUseContent tid name input"
      by (auto simp: nth_Cons' Suc_diff_le)
    from Cons.IH [OF this] show ?thesis
      by (cases x) simp_all
  qed
qed

lemma safeParseJson_range:
  "safeParseJson rt s d = d \<or> (\<exists>s'. rt_parse rt s' = Some (safeParseJson rt s d))"
  by (auto simp: safeParseJson_def split: option.splits sum.splits)

lemma folded_array_nth:
  assumes "i < length (folded_array chunks)" and "folded_array chunks ! i \<noteq> None"
  shows "deltas_at i chunks \<noteq> []"
    and "the (folded_array chunks ! i) = folded_call (deltas_at i chunks)"
  using assms by (auto simp: folded_array_def split: if_splits)

lemma tool_use_events:
  assumes tools: "hasToolCalls (up_chunks up)" and ok: "up_failure up = None"
    and start: "ContentBlockStart k (ToolUseContent tid name input)
                  \<in> set (received (transformStreamResponse rt up (start_controller n)))"
  shows "\<exists>i. deltas_at i (up_chunks up) \<noteq> []
           \<and> tid = call_id (folded_call (deltas_at i (up_chunks up)))
           \<and> name = set_name (deltas_at i (up_chunks up))
           \<and> input = fixToolCallArguments rt
                (if joined_arguments (deltas_at i (up_chunks up)) \<noteq> []
                 then joined_arguments (deltas_at i (up_chunks up)) else ''{}'')
           \<and> ContentBlockDelta k
                (InputJsonDelta (rt_stringify rt (if rt_truthy rt input then input else rt_empty_object rt)))
               \<in> set (received (transformStreamResponse rt up (start_controller n)))"
proof (cases "gap_free (up_chunks up)")
  case False
  with stream_tools [OF tools ok, of rt n] start
  have "ContentBlockStart k (ToolUseContent tid name input) \<in> set (take n recovery_events)"
    by simp
  then have "ContentBlockStart k (ToolUseContent tid name input) \<in> set recovery_events"
    by (rule in_set_takeD)
  then show ?thesis
    by (simp add: recovery_events_def)
next
  case True
  let ?chunks = "up_chunks up"
  let ?m = "folded_message rt ?chunks"
  let ?text = "if joined_text ?chunks \<noteq> [] then [TextContent (joined_text ?chunks)] else []"
  let ?tools = "map (\<lambda>toolCall. block_of rt (the toolCall)) (folded_array ?chunks)"
  have emitted: "received (transformStreamResponse rt up (start_controller n)) = message_events rt ?m"
    using stream_tools [OF tools ok, of rt n] True by simp
  have content: "m_content ?m = ?text @ ?tools"
    by (simp add: folded_message_def)
  from start emitted
  have "ContentBlockStart k (ToolUseContent tid name input) \<in> set (output_blocks rt 0 (m_content ?m))"
    by (simp add: message_events_def)
  then have k: "k < length (m_content ?m)"
    and blk: "m_content ?m ! k = ToolUseContent tid name input"
    by (simp_all add: start_in_output_blocks)
  have delta: "ContentBlockDelta k
        (InputJsonDelta (rt_stringify rt (if rt_truthy rt input then input else rt_empty_object rt)))
      \<in> set (received (transformStreamResponse rt up (start_controller n)))"
    using delta_in_output_blocks [of 0 k "m_content ?m" tid name input rt] k blk emitted
    by (simp add: message_events_def)
  define i where "i = k - length ?text"
  have "length ?text \<le> k"
  proof (cases "joined_text ?chunks = []")
    case True
    then show ?thesis by simp
  next
    case False
    show ?thesis
    proof (cases k)
      case 0
      with False content have "m_content ?m ! k = TextContent (joined_text ?chunks)"
        by simp
      with blk show ?thesis by simp
    next
      case (Suc k')
      with False show ?thesis by simp
    qed
  qed
  with k content have i: "i < length (folded_array ?chunks)"
    and at: "m_content ?m ! k = block_of rt (the (folded_array ?chunks ! i))"
    by (auto simp: i_def nth_append)
  from True i have some: "folded_array ?chunks ! i \<noteq> None"
    by (simp add: gap_free_def list_all_length)
  note nth = folded_array_nth [OF i some]
  from at blk nth(2)
  have "ToolUseContent tid name input = block_of rt (folded_call (deltas_at i ?chunks))"
    by simp
  then have "tid = call_id (folded_call (deltas_at i ?chunks))"
    and "name = set_name (deltas_at i ?chunks)"
    and "input = fixToolCallArguments rt
           (if joined_arguments (deltas_at i ?chunks) \<noteq> []
            then joined_arguments (deltas_at i ?chunks) else ''{}'')"
    by (simp_all add: block_of_def folded_call_code)
  with nth(1) delta show ?thesis by blast
qed

lemma fixToolCallArguments_printed_parses:
  assumes "stringify_parses rt"
  shows "rt_parse rt (rt_stringify rt
           (if rt_truthy rt (fixToolCallArguments rt s) then fixToolCallArguments rt s
            else rt_empty_object rt)) \<noteq> None"
  using assms safeParseJson_range [of rt s "rt_empty_object rt"]
  by (auto simp: stringify_parses_def fixToolCallArguments_def)

text \<open>
  In a turn with a tool-call delta (the provider stream ending without an error), the engine
  reconstructs the complete response that is the fold of the buffered chunks: the text deltas
  concatenated in arrival order and, per tool-call index, the name once set and the argument
  fragments appended in arrival order.  Every \<^verbatim>\<open>tool_use\<close> block that the consumer
  reads belongs to a tool-call index of the turn: it carries that index's identifier and
  name, its input is the joined argument text read through \<^verbatim>\<open>fixToolCallArguments\<close>
  (parse, else repair and parse, else the empty object), and the block's
  \<^verbatim>\<open>input_json_delta\<close> is \<^verbatim>\<open>JSON.stringify\<close> of that input, which parses.  When
  the tool-call indices leave no gap, the consumer reads the canonical sequence of the folded
  message, and no error.
\<close>

lemma tool_call_turn_without_gap:
  assumes "hasToolCalls (up_chunks up)" and "up_failure up = None" and "stringify_parses rt"
  shows "reconstructCompletionFromChunks (up_chunks up) = Inr (folded_completion (up_chunks up))
       \<and> (\<forall>k tid name input.
            ContentBlockStart k (ToolUseContent tid name input)
              \<in> set (received (transformStreamResponse rt up (start_controller n))) \<longrightarrow>
            (\<exists>i. deltas_at i (up_chunks up) \<noteq> []
               \<and> tid = call_id (folded_call (deltas_at i (up_chunks up)))
               \<and> name = set_name (deltas_at i (up_chunks up))
               \<and> input = fixToolCallArguments rt
                    (if joined_arguments (deltas_at i (up_chunks up)) \<noteq> []
                     then joined_arguments (deltas_at i (up_chunks up)) else ''{}'')
               \<and> ContentBlockDelta k
                    (InputJsonDelta
                       (rt_stringify rt (if rt_truthy rt input then input else rt_empty_object rt)))
                   \<in> set (received (transformStreamResponse rt up (start_controller n)))
               \<and> rt_parse rt
                    (rt_stringify rt (if rt_truthy rt input then input else rt_empty_object rt))
                   \<noteq> None))
       \<and> (gap_free (up_chunks up) \<longrightarrow>
            received (transformStreamResponse rt up (start_controller n))
              = message_events rt (folded_message rt (up_chunks up))
            \<and> stored_error (transformStreamResponse rt up (start_controller n)) = None)"
proof (intro conjI allI impI)
  show "reconstructCompletionFromChunks (up_chunks up) = Inr (folded_completion (up_chunks up))"
    using hasToolCalls_nonempty [OF assms(1)] by (rule reconstruct_folded)
next
  fix k tid name input
  assume "ContentBlockStart k (ToolUseContent tid name input)
            \<in> set (received (transformStreamResponse rt up (start_controller n)))"
  from tool_use_events [OF assms(1,2) this] obtain i where
    i: "deltas_at i (up_chunks up) \<noteq> []"
       "tid = call_id (folded_call (deltas_at i (up_chunks up)))"
       "name = set_name (deltas_at i (up_chunks up))"
       "input = fixToolCallArguments rt
                    (if joined_arguments (deltas_at i (up_chunks up)) \<noteq> []
                     then joined_arguments (deltas_at i (up_chunks up)) else ''{}'')"
       "ContentBlockDelta k
          (InputJsonDelta (rt_stringify rt (if rt_truthy rt input then input else rt_empty_object rt)))
         \<in> set (received (transformStreamResponse rt up (start_controller n)))"
    by blast
  have "rt_parse rt (rt_stringify rt (if rt_truthy rt input then input else rt_empty_object rt)) \<noteq> None"
    unfolding i(4) by (rule fixToolCallArguments_printed_parses [OF assms(3)])
  with i show "\<exists>i. deltas_at i (up_chunks up) \<noteq> []
               \<and> tid = call_id (folded_call (deltas_at i (up_chunks up)))
               \<and> name = set_name (deltas_at i (up_chunks up))
               \<and> input = fixToolCallArguments rt
                    (if joined_arguments (deltas_at i (up_chunks up)) \<noteq> []
                     then joined_arguments (deltas_at i (up_chunks up)) else ''{}'')
               \<and> ContentBlockDelta k
                    (InputJsonDelta
                       (rt_stringify rt (if rt_truthy rt input then input else rt_empty_object rt)))
                   \<in> set (received (transformStreamResponse rt up (start_controller n)))
               \<and> rt_parse rt
                    (rt_stringify rt (if rt_truthy rt input then input else rt_empty_object rt))
                   \<noteq> None"
    by blast
next
  assume "gap_free (up_chunks up)"
  with stream_tools [OF assms(1,2), of rt n]
  show "received (transformStreamResponse rt up (start_controller n))
          = message_events rt (folded_message rt (up_chunks up))"
    and "stored_error (transformStreamResponse rt up (start_controller n)) = None"
    by simp_all
qed

text \<open>The canonical sequence that a turn without a gap forms when its finish reason is
  mapped to a stop reason.\<close>

lemma stream_tools_valid:
  assumes "hasToolCalls (up_chunks up)" and "up_failure up = None"
    and "gap_free (up_chunks up)"
    and "is_stop_reason (Some (mapFinishReason (last_finish (up_chunks up))))"
  shows "valid_stream (received (transformStreamResponse rt up (start_controller n)))"
proof -
  let ?m = "folded_message rt (up_chunks up)"
  let ?text = "if joined_text (up_chunks up) \<noteq> [] then [TextContent (joined_text (up_chunks up))] else []"
  let ?tools = "map (\<lambda>toolCall. block_of rt (the toolCall)) (folded_array (up_chunks up))"
  have "m_content ?m = ?text @ ?tools"
    by (simp add: folded_message_def)
  moreover have "?text = [] \<or> (\<exists>t. ?text = [TextContent t])"
    by simp
  moreover have "list_all is_tool_use ?tools"
    by (simp add: list_all_iff block_of_def)
  moreover from assms(4) have "is_stop_reason (m_stop_reason ?m)"
    by (simp add: folded_message_def)
  ultimately have "valid_stream (message_events rt ?m)"
    by (rule message_events_valid)
  with stream_tools [OF assms(1,2), of rt n] assms(3) show ?thesis
    by simp
qed

lemma tool_call_turn_example:
  "received (transformStreamResponse js_rt
      \<lparr>up_chunks = [text_chunk ''Let me check.'',
                    tool_chunk 0 (Some ''call_1'') (Some ''get_weather'') (Some ''{'city':''),
                    tool_chunk 0 None None (Some '' 'Paris'}''),
                    finish_chunk ''tool_calls''], up_failure = None\<rparr> (start_controller 1))
   = [MessageStart
        \<lparr>m_model = ''gpt-4'',
         m_content = [TextContent ''Let me check.'',
                      ToolUseContent ''call_1'' ''get_weather'' (JObj [(''city'', JStr ''Paris'')])],
         m_stop_reason = Some (JString ''tool_use''), m_input_tokens = 0, m_output_tokens = 0\<rparr>,
      ContentBlockStart 0 (TextContent ''Let me check.''),
      ContentBlockDelta 0 (TextDelta ''Let me check.''),
      ContentBlockStop 0,
      ContentBlockStart 1 (ToolUseContent ''call_1'' ''get_weather'' (JObj [(''city'', JStr ''Paris'')])),
      ContentBlockDelta 1 (InputJsonDelta ''{\"city\":\"Paris\"}''),
      ContentBlockStop 1,
      MessageDelta (Some (JString ''tool_use'')),
      MessageStop]
   \<and> json_parse ''{\"city\":\"Paris\"}'' = Some (JObj [(''city'', JStr ''Paris'')])"
  by code_simp

text \<open>
  Claim C1 (in every streaming turn with a tool-call delta the engine folds the chunks into
  one complete response and emits its \<^verbatim>\<open>tool_use\<close> blocks, with the provider's name
  and the repaired arguments) does not hold of the code.  In a turn whose only tool call has
  index 1, the fold does produce the tool call, with its identifier, name and arguments; the
  loop that turns the map into an array writes it to index 1 and leaves a hole at index 0;
  \<^verbatim>\<open>transformResponse\<close> iterates over the array, reads \<^verbatim>\<open>toolCall.id\<close> of the hole
  and throws a \<^verbatim>\<open>TypeError\<close>.  No \<^verbatim>\<open>tool_use\<close> block is written: a consumer with
  one read request pending reads the \<^verbatim>\<open>message_start\<close> of the recovery events and then
  the error.
\<close>

theorem tool_call_gap:
  "hasToolCalls [tool_chunk 1 (Some ''call_1'') (Some ''get_weather'') (Some ''{\"city\":\"Paris\"}''),
                 finish_chunk ''tool_calls'']
   \<and> reconstructCompletionFromChunks
        [tool_chunk 1 (Some ''call_1'') (Some ''get_weather'') (Some ''{\"city\":\"Paris\"}''),
         finish_chunk ''tool_calls'']
     = Inr \<lparr>cmpl_model = ''gpt-4'',
            cmpl_choices =
              [\<lparr>cc_message =
                  \<lparr>msg_content = None,
                   msg_tool_calls =
                     Some [None,
                           Some \<lparr>call_id = ''call_1'', call_type = ''function'',
                                 call_name = ''get_weather'',
                                 call_arguments = ''{\"city\":\"Paris\"}''\<rparr>]\<rparr>,
                cc_finish_reason = Some ''tool_calls''\<rparr>],
            cmpl_usage = Some \<lparr>prompt_tokens = Some 0, completion_tokens = Some 0\<rparr>\<rparr>
   \<and> transformResponse js_rt
        \<lparr>cmpl_model = ''gpt-4'',
         cmpl_choices =
           [\<lparr>cc_message =
               \<lparr>msg_content = None,
                msg_tool_calls =
                  Some [None,
                        Some \<lparr>call_id = ''call_1'', call_type = ''function'',
                              call_name = ''get_weather'',
                              call_arguments = ''{\"city\":\"Paris\"}''\<rparr>]\<rparr>,
             cc_finish_reason = Some ''tool_calls''\<rparr>],
         cmpl_usage = Some \<lparr>prompt_tokens = Some 0, completion_tokens = Some 0\<rparr>\<rparr>
     = Inl TypeError
   \<and> received (transformStreamResponse js_rt
        \<lparr>up_chunks = [tool_chunk 1 (Some ''call_1'') (Some ''get_weather'')
                        (Some ''{\"city\":\"Paris\"}''),
                      finish_chunk ''tool_calls''],
         up_failure = None\<rparr> (start_controller 1))
     = [MessageStart \<lparr>m_model = ''unknown'', m_content = [],
                      m_stop_reason = Some (JString ''error''),
                      m_input_tokens = 0, m_output_tokens = 0\<rparr>]
   \<and> stored_error (transformStreamResponse js_rt
        \<lparr>up_chunks = [tool_chunk 1 (Some ''call_1'') (Some ''get_weather'')
                        (Some ''{\"city\":\"Paris\"}''),
                      finish_chunk ''tool_calls''],
         up_failure = None\<rparr> (start_controller 1))
     = Some (StreamingFailed TypeError)"
  by code_simp

text \<open>The same tool call at index 0 reaches the consumer.\<close>

lemma tool_call_index_0_example:
  "received (transformStreamResponse js_rt
      \<lparr>up_chunks = [tool_chunk 0 (Some ''call_1'') (Some ''get_weather'')
                      (Some ''{\"city\":\"Paris\"}''),
                    finish_chunk ''tool_calls''],
       up_failure = None\<rparr> (start_controller 1))
   = [MessageStart
        \<lparr>m_model = ''gpt-4'',
         m_content = [ToolUseContent ''call_1'' ''get_weather'' (JObj [(''city'', JStr ''Paris'')])],
         m_stop_reason = Some (JString ''tool_use''), m_input_tokens = 0, m_output_tokens = 0\<rparr>,
      ContentBlockStart 0 (ToolUseContent ''call_1'' ''get_weather'' (JObj [(''city'', JStr ''Paris'')])),
      ContentBlockDelta 0 (InputJsonDelta ''{\"city\":\"Paris\"}''),
      ContentBlockStop 0,
      MessageDelta (Some (JString ''tool_use'')),
      MessageStop]"
  by code_simp

text \<open>Every turn with a gap in its tool-call indices ends this way.\<close>

lemma tool_call_gap_general:
  assumes "hasToolCalls (up_chunks up)" and "up_failure up = None"
    and "\<not> gap_free (up_chunks up)"
  shows "received (transformStreamResponse rt up (start_controller n)) = take n recovery_events
       \<and> stored_error (transformStreamResponse rt up (start_controller n))
           = Some (StreamingFailed TypeError)"
  using stream_tools [OF assms(1,2), of rt n] assms(3) by simp
end
